theory Spec2Isabelle
  imports Complex_Main "HOL-Library.Multiset" "HOL-Library.Sublist"
begin

section \<open>Python floats\<close>

text \<open>
  A Python float is an IEEE-754 binary64 value: a finite number, one of the two
  infinities, or NaN. Finite values are carried as reals; every arithmetic result is
  rounded to the nearest binary64 value, ties to even, by \<open>b64\<close>. The two signed
  zeros are not told apart (no operation of the program distinguishes them).
\<close>

datatype pyfloat = Fin real | PInf | NInf | NaN

definition rne :: "real \<Rightarrow> int" where
  "rne x = (if frac x < 1/2 then \<lfloor>x\<rfloor> else if 1/2 < frac x then \<lceil>x\<rceil>
            else if even \<lfloor>x\<rfloor> then \<lfloor>x\<rfloor> else \<lceil>x\<rceil>)"

text \<open>The exponent of the last place of the binade of \<open>x\<close> (subnormals share the lowest one).\<close>

definition b64_exp :: "real \<Rightarrow> int" where
  "b64_exp x = max \<lfloor>log 2 \<bar>x\<bar>\<rfloor> (- 1022) - 52"

definition b64_rd :: "real \<Rightarrow> real" where
  "b64_rd x = (if x = 0 then 0
               else of_int (rne (x / 2 powr (of_int (b64_exp x)))) * 2 powr (of_int (b64_exp x)))"

definition b64 :: "real \<Rightarrow> pyfloat" where
  "b64 x = (let y = b64_rd x in
            if 2 ^ 1024 \<le> y then PInf else if y \<le> - (2 ^ 1024) then NInf else Fin y)"


definition is_nan :: "pyfloat \<Rightarrow> bool" where
  "is_nan x = (x = NaN)"

fun fneg :: "pyfloat \<Rightarrow> pyfloat" where
  "fneg (Fin a) = Fin (- a)"
| "fneg PInf = NInf"
| "fneg NInf = PInf"
| "fneg NaN = NaN"

fun fadd :: "pyfloat \<Rightarrow> pyfloat \<Rightarrow> pyfloat" where
  "fadd NaN _ = NaN"
| "fadd _ NaN = NaN"
| "fadd (Fin a) (Fin b) = b64 (a + b)"
| "fadd PInf NInf = NaN"
| "fadd NInf PInf = NaN"
| "fadd PInf _ = PInf"
| "fadd NInf _ = NInf"
| "fadd _ PInf = PInf"
| "fadd _ NInf = NInf"

definition fsub :: "pyfloat \<Rightarrow> pyfloat \<Rightarrow> pyfloat" where
  "fsub x y = fadd x (fneg y)"

fun fsgn :: "pyfloat \<Rightarrow> int" where
  "fsgn (Fin a) = (if 0 < a then 1 else if a < 0 then - 1 else 0)"
| "fsgn PInf = 1"
| "fsgn NInf = - 1"
| "fsgn NaN = 0"

fun fmul :: "pyfloat \<Rightarrow> pyfloat \<Rightarrow> pyfloat" where
  "fmul NaN _ = NaN"
| "fmul _ NaN = NaN"
| "fmul (Fin a) (Fin b) = b64 (a * b)"
| "fmul x y = (if fsgn x * fsgn y = 0 then NaN else if 0 < fsgn x * fsgn y then PInf else NInf)"

text \<open>Division by a positive finite literal: the program divides by 2 and by 60.0 only.\<close>

fun fdiv :: "pyfloat \<Rightarrow> real \<Rightarrow> pyfloat" where
  "fdiv (Fin a) d = b64 (a / d)"
| "fdiv x d = x"

fun flt :: "pyfloat \<Rightarrow> pyfloat \<Rightarrow> bool" where
  "flt NaN _ = False"
| "flt _ NaN = False"
| "flt (Fin a) (Fin b) = (a < b)"
| "flt PInf _ = False"
| "flt _ PInf = True"
| "flt NInf (Fin b) = True"
| "flt _ NInf = False"

fun fle :: "pyfloat \<Rightarrow> pyfloat \<Rightarrow> bool" where
  "fle NaN _ = False"
| "fle _ NaN = False"
| "fle (Fin a) (Fin b) = (a \<le> b)"
| "fle NInf _ = True"
| "fle _ PInf = True"
| "fle PInf _ = False"
| "fle _ NInf = False"

definition fgt :: "pyfloat \<Rightarrow> pyfloat \<Rightarrow> bool" where
  "fgt x y = flt y x"

definition fge :: "pyfloat \<Rightarrow> pyfloat \<Rightarrow> bool" where
  "fge x y = fle y x"

text \<open>Python's \<open>==\<close> on floats: NaN equals nothing, itself included.\<close>

definition feq :: "pyfloat \<Rightarrow> pyfloat \<Rightarrow> bool" where
  "feq x y = (x \<noteq> NaN \<and> x = y)"

section \<open>Constants\<close>

definition BIG_TRUCK :: pyfloat where "BIG_TRUCK = Fin 12"
definition MEDIUM_TRUCK :: pyfloat where "MEDIUM_TRUCK = Fin 7"
definition SMALL_TRUCK :: pyfloat where "SMALL_TRUCK = Fin 3"
definition TIME_LOADING :: pyfloat where "TIME_LOADING = Fin (1/4)"
definition TIME_SERVICE :: pyfloat where "TIME_SERVICE = Fin (3/4)"
definition SPEED_KMH :: real where "SPEED_KMH = 60"
definition MAX_CONCRETE_LIFESPAN :: pyfloat where "MAX_CONCRETE_LIFESPAN = Fin 6"

section \<open>Data model\<close>

record coords =
  latitude :: pyfloat
  longitude :: pyfloat

text \<open>
  An order holds its \<open>Dmax\<close> as a float object. Python tells objects apart by identity,
  and that can be seen on a NaN (the one float not equal to itself), so the order carries
  the identity of that object next to its value: two orders share the object when both
  fields agree.
\<close>

record orders =
  customer_id :: int
  coordinates :: coords
  order_volume :: pyfloat
  strength :: string
  Dmax :: pyfloat
  Dmax_id :: nat
  consistency :: string
  exposure :: string
  date :: string

definition PLANT_COORDS :: coords where
  "PLANT_COORDS = \<lparr>latitude = b64 (47624 / 1000), longitude = b64 (190655 / 10000)\<rparr>"

datatype error = ValueError | OverflowError

section \<open>Distance and travel time\<close>

text \<open>
  \<open>math.radians\<close> multiplies by the float constant \<open>pi / 180.0\<close>, itself a quotient of
  floats.
\<close>

definition deg_to_rad :: pyfloat where
  "deg_to_rad = fdiv (b64 pi) 180"

fun m_radians :: "pyfloat \<Rightarrow> pyfloat" where
  "m_radians x = fmul x deg_to_rad"

text \<open>
  \<open>sin\<close>, \<open>cos\<close>, \<open>atan2\<close> and \<open>pow\<close> are the platform's C library functions. Their
  results are close to the exact value but need not be the nearest float, so the
  library is a parameter: what it returns for finite arguments. The \<open>math\<close> module wraps
  them: NaN passes through, an infinite argument of \<open>sin\<close> or \<open>cos\<close> raises ValueError, and
  a result that is not finite for finite arguments raises.
\<close>

record libm =
  lm_sin :: "real \<Rightarrow> pyfloat"
  lm_cos :: "real \<Rightarrow> pyfloat"
  lm_atan2 :: "real \<Rightarrow> real \<Rightarrow> pyfloat"
  lm_pow :: "real \<Rightarrow> real \<Rightarrow> pyfloat"

fun m_sin :: "libm \<Rightarrow> pyfloat \<Rightarrow> error + pyfloat" where
  "m_sin L (Fin a) = (case lm_sin L a of Fin y \<Rightarrow> Inr (Fin y) | _ \<Rightarrow> Inl ValueError)"
| "m_sin L NaN = Inr NaN"
| "m_sin L _ = Inl ValueError"

fun m_cos :: "libm \<Rightarrow> pyfloat \<Rightarrow> error + pyfloat" where
  "m_cos L (Fin a) = (case lm_cos L a of Fin y \<Rightarrow> Inr (Fin y) | _ \<Rightarrow> Inl ValueError)"
| "m_cos L NaN = Inr NaN"
| "m_cos L _ = Inl ValueError"

text \<open>\<open>sqrt\<close> is correctly rounded on every IEEE-754 platform.\<close>

fun m_sqrt :: "pyfloat \<Rightarrow> error + pyfloat" where
  "m_sqrt (Fin a) = (if a < 0 then Inl ValueError else Inr (b64 (sqrt a)))"
| "m_sqrt PInf = Inr PInf"
| "m_sqrt NInf = Inl ValueError"
| "m_sqrt NaN = Inr NaN"

text \<open>
  \<open>math.atan2\<close> answers the infinite cases itself, with multiples of the float \<open>pi\<close>, and
  calls the library at finite arguments.
\<close>

fun m_atan2 :: "libm \<Rightarrow> pyfloat \<Rightarrow> pyfloat \<Rightarrow> error + pyfloat" where
  "m_atan2 L NaN _ = Inr NaN"
| "m_atan2 L _ NaN = Inr NaN"
| "m_atan2 L (Fin y) (Fin x) =
     (case lm_atan2 L y x of Fin r \<Rightarrow> Inr (Fin r) | NaN \<Rightarrow> Inl ValueError
      | _ \<Rightarrow> Inl OverflowError)"
| "m_atan2 L (Fin y) PInf = Inr (Fin 0)"
| "m_atan2 L (Fin y) NInf = Inr (if 0 \<le> y then b64 pi else fneg (b64 pi))"
| "m_atan2 L PInf (Fin x) = Inr (fmul (Fin (1 / 2)) (b64 pi))"
| "m_atan2 L NInf (Fin x) = Inr (fneg (fmul (Fin (1 / 2)) (b64 pi)))"
| "m_atan2 L PInf PInf = Inr (fmul (Fin (1 / 4)) (b64 pi))"
| "m_atan2 L PInf NInf = Inr (fmul (Fin (3 / 4)) (b64 pi))"
| "m_atan2 L NInf PInf = Inr (fneg (fmul (Fin (1 / 4)) (b64 pi)))"
| "m_atan2 L NInf NInf = Inr (fneg (fmul (Fin (3 / 4)) (b64 pi)))"

text \<open>\<open>x ** 2\<close> on a float: the library's \<open>pow\<close>, an overflow raising OverflowError.\<close>

fun fsq :: "libm \<Rightarrow> pyfloat \<Rightarrow> error + pyfloat" where
  "fsq L (Fin a) =
     (case lm_pow L a 2 of Fin y \<Rightarrow> Inr (Fin y) | NaN \<Rightarrow> Inl ValueError
      | _ \<Rightarrow> Inl OverflowError)"
| "fsq L NaN = Inr NaN"
| "fsq L _ = Inr PInf"

definition bind_e :: "error + 'a \<Rightarrow> ('a \<Rightarrow> error + 'b) \<Rightarrow> error + 'b" where
  "bind_e m f = (case m of Inl e \<Rightarrow> Inl e | Inr x \<Rightarrow> f x)"

definition calculate_distance :: "libm \<Rightarrow> coords \<Rightarrow> coords \<Rightarrow> error + pyfloat" where
  "calculate_distance L coord1 coord2 =
     (if is_nan (latitude coord1) \<or> is_nan (longitude coord1) \<or>
         is_nan (latitude coord2) \<or> is_nan (longitude coord2)
      then Inr (Fin 50)
      else
        let lat1 = m_radians (latitude coord1); lon1 = m_radians (longitude coord1);
            lat2 = m_radians (latitude coord2); lon2 = m_radians (longitude coord2)
        in bind_e (m_sin L (fdiv (fsub lat2 lat1) 2)) (\<lambda>s1.
           bind_e (fsq L s1) (\<lambda>q1.
           bind_e (m_cos L lat1) (\<lambda>c1.
           bind_e (m_cos L lat2) (\<lambda>c2.
           bind_e (m_sin L (fdiv (fsub lon2 lon1) 2)) (\<lambda>s2.
           bind_e (fsq L s2) (\<lambda>q2.
           let a = fadd q1 (fmul (fmul c1 c2) q2) in
           bind_e (m_sqrt a) (\<lambda>ra.
           bind_e (m_sqrt (fsub (Fin 1) a)) (\<lambda>rb.
           bind_e (m_atan2 L ra rb) (\<lambda>ang.
           let c = fmul (Fin 2) ang in
           Inr (fmul (Fin 6371) c)))))))))))"

definition get_travel_time :: "pyfloat \<Rightarrow> pyfloat" where
  "get_travel_time dist_km =
     (if is_nan dist_km then Fin 1
      else fmul (fdiv dist_km SPEED_KMH) (b64 (11 / 10)))"

section \<open>Pools\<close>

text \<open>
  \<open>create_pools\<close> fills a dictionary keyed by a tuple of fields of the order. The
  dictionary is an association list in insertion order. A key is looked up as Python
  looks up a tuple: item by item, two items matching when they are the same object or
  equal under \<open>==\<close>. So a NaN \<open>Dmax\<close> matches an earlier key only if it is the very same
  object. The function is given once for any key; the two call sites pick the key.
\<close>

type_synonym 'k pools = "('k \<times> orders list) list"

fun pools_add :: "('k \<Rightarrow> 'k \<Rightarrow> bool) \<Rightarrow> 'k \<Rightarrow> orders \<Rightarrow> 'k pools \<Rightarrow> 'k pools" where
  "pools_add keq k ord [] = [(k, [ord])]"
| "pools_add keq k ord ((k', os) # ps) =
     (if keq k k' then (k', os @ [ord]) # ps else (k', os) # pools_add keq k ord ps)"

definition create_pools_by ::
    "(orders \<Rightarrow> 'k) \<Rightarrow> ('k \<Rightarrow> 'k \<Rightarrow> bool) \<Rightarrow> orders list \<Rightarrow> 'k pools" where
  "create_pools_by keyf keq ords = foldl (\<lambda>ps ord. pools_add keq (keyf ord) ord ps) [] ords"

text \<open>A float object: its identity and its value.\<close>

type_synonym float_obj = "nat \<times> pyfloat"

definition item_eq :: "float_obj \<Rightarrow> float_obj \<Rightarrow> bool" where
  "item_eq x y = (x = y \<or> feq (snd x) (snd y))"

type_synonym key4 = "string \<times> float_obj \<times> string \<times> string"
type_synonym key3 = "string \<times> float_obj \<times> string"

definition order_key :: "orders \<Rightarrow> key4" where
  "order_key ord = (strength ord, (Dmax_id ord, Dmax ord), consistency ord, exposure ord)"

definition key_eq :: "key4 \<Rightarrow> key4 \<Rightarrow> bool" where
  "key_eq k k' = (case (k, k') of ((s, d, c, e), (s', d', c', e')) \<Rightarrow>
     s = s' \<and> item_eq d d' \<and> c = c' \<and> e = e')"

definition order_key3 :: "orders \<Rightarrow> key3" where
  "order_key3 ord = (strength ord, (Dmax_id ord, Dmax ord), consistency ord)"

definition key3_eq :: "key3 \<Rightarrow> key3 \<Rightarrow> bool" where
  "key3_eq k k' = (case (k, k') of ((s, d, c), (s', d', c')) \<Rightarrow> s = s' \<and> item_eq d d' \<and> c = c')"

definition create_pools :: "orders list \<Rightarrow> key4 pools" where
  "create_pools = create_pools_by order_key key_eq"

definition create_pools_test :: "orders list \<Rightarrow> key3 pools" where
  "create_pools_test = create_pools_by order_key3 key3_eq"

section \<open>Priority order\<close>

text \<open>
  \<open>list.sort(key=..., reverse=True)\<close> is a stable sort into descending order of the
  key, comparing keys with \<open><\<close>.
\<close>

fun insort_desc :: "('a \<Rightarrow> pyfloat) \<Rightarrow> 'a \<Rightarrow> 'a list \<Rightarrow> 'a list" where
  "insort_desc key x [] = [x]"
| "insort_desc key x (y # ys) =
     (if flt (key x) (key y) then y # insort_desc key x ys else x # y # ys)"

definition sort_desc :: "('a \<Rightarrow> pyfloat) \<Rightarrow> 'a list \<Rightarrow> 'a list" where
  "sort_desc key xs = foldr (insort_desc key) xs []"

text \<open>
  \<open>random.shuffle\<close>: for \<open>i\<close> from the last index down to 1, swap positions \<open>i\<close> and
  \<open>j\<close>, where \<open>j\<close> is drawn from \<open>0..i\<close>. The draws are the parameter \<open>rb\<close>.
\<close>

fun shuffle_from :: "(nat \<Rightarrow> nat) \<Rightarrow> nat \<Rightarrow> 'a list \<Rightarrow> 'a list" where
  "shuffle_from rb 0 xs = xs"
| "shuffle_from rb (Suc i) xs =
     (let j = rb (Suc i) mod (Suc (Suc i))
      in shuffle_from rb i (xs[Suc i := xs ! j, j := xs ! Suc i]))"

definition shuffle :: "(nat \<Rightarrow> nat) \<Rightarrow> 'a list \<Rightarrow> 'a list" where
  "shuffle rb xs = shuffle_from rb (length xs - 1) xs"

text \<open>\<open>r\<close> is the value \<open>random.random()\<close> returns, \<open>rb\<close> the draws of the shuffle.\<close>

definition prioritize_pool_orders :: "pyfloat \<Rightarrow> (nat \<Rightarrow> nat) \<Rightarrow> orders list \<Rightarrow> orders list" where
  "prioritize_pool_orders r rb pool =
     (let large_orders = filter (\<lambda>ord. fge (order_volume ord) MEDIUM_TRUCK) pool;
          small_orders = filter (\<lambda>ord. flt (order_volume ord) MEDIUM_TRUCK) pool;
          is_priority_mode = flt r (b64 (45 / 100))
      in if is_priority_mode then sort_desc order_volume large_orders @ small_orders
         else shuffle rb (large_orders @ small_orders))"

section \<open>Trucks, stops and trips\<close>

datatype truck_type = Small_Truck | Medium_Truck | Big_Truck

datatype route_type = Direct | Shared | Leftover

text \<open>\<open>avoid_small\<close> is the flag \<open>AVOID_SMALL_TRUCKS\<close> of the second variant; the first variant
  is the function at \<open>False\<close>.\<close>

definition get_best_truck :: "bool \<Rightarrow> pyfloat \<Rightarrow> truck_type \<times> pyfloat" where
  "get_best_truck avoid_small volume =
     (if fle volume SMALL_TRUCK then
        (if avoid_small then (Medium_Truck, MEDIUM_TRUCK) else (Small_Truck, SMALL_TRUCK))
      else if fle volume MEDIUM_TRUCK then (Medium_Truck, MEDIUM_TRUCK)
      else (Big_Truck, BIG_TRUCK))"

definition capacity :: "truck_type \<Rightarrow> pyfloat" where
  "capacity t = (case t of Small_Truck \<Rightarrow> SMALL_TRUCK | Medium_Truck \<Rightarrow> MEDIUM_TRUCK
                 | Big_Truck \<Rightarrow> BIG_TRUCK)"

record leftover =
  l_customer_id :: int
  l_volume :: pyfloat
  l_coordinates :: coords
  full_order :: orders

record trip =
  truck_type :: truck_type
  stops :: "int list"
  volume :: pyfloat
  duration :: pyfloat
  concrete_age_at_finish :: "pyfloat option"
  route_type :: route_type

definition optimize_stop_sequence :: "libm \<Rightarrow> leftover \<Rightarrow> leftover \<Rightarrow> error + (leftover \<times> leftover)" where
  "optimize_stop_sequence L stop_a stop_b =
     bind_e (calculate_distance L PLANT_COORDS (l_coordinates stop_a)) (\<lambda>dist_plant_a.
     bind_e (calculate_distance L PLANT_COORDS (l_coordinates stop_b)) (\<lambda>dist_plant_b.
     bind_e (calculate_distance L (l_coordinates stop_a) (l_coordinates stop_b)) (\<lambda>dist_a_b.
       let len_a_b = fadd dist_plant_a dist_a_b;
           len_b_a = fadd dist_plant_b dist_a_b
       in if fle len_a_b len_b_a then Inr (stop_a, stop_b) else Inr (stop_b, stop_a))))"

section \<open>Direct trips\<close>

text \<open>
  The body of the \<open>while vol > 0\<close> loop for one order. A full truck is carved off while
  the rest is at least a medium truck; a smaller rest is kept as a leftover item and the
  rest set to 0. The warning printed for an old load changes nothing and is left out.
  The loop need not end, so it runs on fuel: \<open>direct_loop L n\<close> allows \<open>n\<close> passes through
  the body and is \<open>None\<close> when the condition still holds after them.
\<close>

definition direct_trip :: "libm \<Rightarrow> orders \<Rightarrow> truck_type \<Rightarrow> pyfloat \<Rightarrow> error + trip" where
  "direct_trip L ord current_truck_type current_truck_cap =
     bind_e (calculate_distance L PLANT_COORDS (coordinates ord)) (\<lambda>dist.
       let t_travel = get_travel_time dist;
           concrete_age = fadd (fadd TIME_LOADING t_travel) TIME_SERVICE;
           dur = fadd (fadd (fadd TIME_LOADING t_travel) TIME_SERVICE) t_travel
       in Inr \<lparr>truck_type = current_truck_type, stops = [customer_id ord],
                volume = current_truck_cap, duration = dur,
                concrete_age_at_finish = Some concrete_age, route_type = Direct\<rparr>)"

definition leftover_of :: "orders \<Rightarrow> pyfloat \<Rightarrow> leftover" where
  "leftover_of ord vol = \<lparr>l_customer_id = customer_id ord, l_volume = vol,
                            l_coordinates = coordinates ord, full_order = ord\<rparr>"

fun direct_loop ::
    "libm \<Rightarrow> nat \<Rightarrow> orders \<Rightarrow> pyfloat \<Rightarrow> trip list \<times> leftover list
       \<Rightarrow> (error + trip list \<times> leftover list) option" where
  "direct_loop L 0 ord vol acc = (if fgt vol (Fin 0) then None else Some (Inr acc))"
| "direct_loop L (Suc n) ord vol acc =
     (if fgt vol (Fin 0) then
        (if fge vol BIG_TRUCK then
           (case direct_trip L ord Big_Truck BIG_TRUCK of
              Inl e \<Rightarrow> Some (Inl e)
            | Inr t \<Rightarrow> direct_loop L n ord (fsub vol BIG_TRUCK) (fst acc @ [t], snd acc))
         else if fge vol MEDIUM_TRUCK then
           (case direct_trip L ord Medium_Truck MEDIUM_TRUCK of
              Inl e \<Rightarrow> Some (Inl e)
            | Inr t \<Rightarrow> direct_loop L n ord (fsub vol MEDIUM_TRUCK) (fst acc @ [t], snd acc))
         else direct_loop L n ord (Fin 0) (fst acc, snd acc @ [leftover_of ord vol]))
      else Some (Inr acc))"

fun direct_pass ::
    "libm \<Rightarrow> nat \<Rightarrow> orders list \<Rightarrow> trip list \<times> leftover list
       \<Rightarrow> (error + trip list \<times> leftover list) option" where
  "direct_pass L n [] acc = Some (Inr acc)"
| "direct_pass L n (ord # rest) acc =
     (case direct_loop L n ord (order_volume ord) acc of
        None \<Rightarrow> None
      | Some (Inl e) \<Rightarrow> Some (Inl e)
      | Some (Inr acc') \<Rightarrow> direct_pass L n rest acc')"

section \<open>Pairing of leftovers\<close>

text \<open>
  What the inner loop computes for one candidate partner. \<open>None\<close> is a \<open>continue\<close>: the
  pair is over the big truck or its concrete is too old at the second stop.
\<close>

record candidate =
  c_score :: pyfloat
  c_truck_type :: truck_type
  c_truck_cap :: pyfloat
  c_stops :: "leftover \<times> leftover"
  c_dist2 :: pyfloat
  c_age :: pyfloat
  c_duration :: pyfloat

definition eval_pair :: "libm \<Rightarrow> bool \<Rightarrow> leftover \<Rightarrow> leftover \<Rightarrow> error + candidate option" where
  "eval_pair L avoid_small item_a item_b =
     (let combined_vol = fadd (l_volume item_a) (l_volume item_b) in
      if fgt combined_vol BIG_TRUCK then Inr None
      else
        let tt = get_best_truck avoid_small combined_vol in
        bind_e (optimize_stop_sequence L item_a item_b) (\<lambda>stops.
        bind_e (calculate_distance L PLANT_COORDS (l_coordinates (fst stops))) (\<lambda>d1.
        bind_e (calculate_distance L (l_coordinates (fst stops)) (l_coordinates (snd stops))) (\<lambda>d2.
        bind_e (calculate_distance L (l_coordinates (snd stops)) PLANT_COORDS) (\<lambda>d3.
          let t1 = get_travel_time d1; t2 = get_travel_time d2; t3 = get_travel_time d3;
              concrete_age_at_end =
                fadd (fadd (fadd (fadd TIME_LOADING t1) TIME_SERVICE) t2) TIME_SERVICE
          in if fgt concrete_age_at_end MAX_CONCRETE_LIFESPAN then Inr None
             else
               let waste = fsub (snd tt) combined_vol;
                   score = fadd d2 (fmul waste (Fin 5))
               in Inr (Some \<lparr>c_score = score, c_truck_type = fst tt, c_truck_cap = snd tt,
                               c_stops = stops, c_dist2 = d2, c_age = concrete_age_at_end,
                               c_duration = fadd concrete_age_at_end t3\<rparr>))))))"

text \<open>
  The state of the search: \<open>None\<close> is \<open>best_match_idx = -1\<close> with \<open>best_metric = inf\<close>,
  otherwise the index of the best partner so far and what was recorded with it.
\<close>

type_synonym best = "(nat \<times> candidate) option"

definition best_metric :: "best \<Rightarrow> pyfloat" where
  "best_metric b = (case b of None \<Rightarrow> PInf | Some (j, c) \<Rightarrow> c_score c)"

definition partner_step ::
    "libm \<Rightarrow> bool \<Rightarrow> leftover list \<Rightarrow> nat set \<Rightarrow> nat \<Rightarrow> best \<Rightarrow> nat \<Rightarrow> error + best" where
  "partner_step L avoid_small leftovers processed i b j =
     (if i = j \<or> j \<in> processed then Inr b
      else case eval_pair L avoid_small (leftovers ! i) (leftovers ! j) of
             Inl e \<Rightarrow> Inl e
           | Inr None \<Rightarrow> Inr b
           | Inr (Some c) \<Rightarrow> if flt (c_score c) (best_metric b) then Inr (Some (j, c)) else Inr b)"

fun fold_e :: "('s \<Rightarrow> 'a \<Rightarrow> error + 's) \<Rightarrow> 'a list \<Rightarrow> 's \<Rightarrow> error + 's" where
  "fold_e f [] s = Inr s"
| "fold_e f (x # xs) s = (case f s x of Inl e \<Rightarrow> Inl e | Inr s' \<Rightarrow> fold_e f xs s')"

definition find_partner :: "libm \<Rightarrow> bool \<Rightarrow> leftover list \<Rightarrow> nat set \<Rightarrow> nat \<Rightarrow> error + best" where
  "find_partner L avoid_small leftovers processed i =
     fold_e (partner_step L avoid_small leftovers processed i) [0 ..< length leftovers] None"

definition shared_trip :: "leftover list \<Rightarrow> nat \<Rightarrow> nat \<Rightarrow> candidate \<Rightarrow> trip" where
  "shared_trip leftovers i j c =
     \<lparr>truck_type = c_truck_type c,
      stops = [l_customer_id (fst (c_stops c)), l_customer_id (snd (c_stops c))],
      volume = fadd (l_volume (leftovers ! i)) (l_volume (leftovers ! j)),
      duration = c_duration c, concrete_age_at_finish = None, route_type = Shared\<rparr>"

definition leftover_trip :: "libm \<Rightarrow> bool \<Rightarrow> leftover \<Rightarrow> error + trip" where
  "leftover_trip L avoid_small item_a =
     (let tt = get_best_truck avoid_small (l_volume item_a) in
      bind_e (calculate_distance L PLANT_COORDS (l_coordinates item_a)) (\<lambda>dist.
        let t_travel = get_travel_time dist;
            dur = fadd (fadd (fadd TIME_LOADING t_travel) TIME_SERVICE) t_travel
        in Inr \<lparr>truck_type = fst tt, stops = [l_customer_id item_a],
                 volume = l_volume item_a, duration = dur,
                 concrete_age_at_finish = None, route_type = Leftover\<rparr>))"

definition pair_step ::
    "libm \<Rightarrow> bool \<Rightarrow> leftover list \<Rightarrow> trip list \<times> nat set \<Rightarrow> nat \<Rightarrow> error + trip list \<times> nat set" where
  "pair_step L avoid_small leftovers st i =
     (if i \<in> snd st then Inr st
      else bind_e (find_partner L avoid_small leftovers (snd st) i) (\<lambda>b.
        case b of
          Some (j, c) \<Rightarrow> Inr (fst st @ [shared_trip leftovers i j c], insert j (insert i (snd st)))
        | None \<Rightarrow> bind_e (leftover_trip L avoid_small (leftovers ! i)) (\<lambda>t.
            Inr (fst st @ [t], insert i (snd st)))))"

definition pair_leftovers :: "libm \<Rightarrow> bool \<Rightarrow> leftover list \<Rightarrow> trip list \<Rightarrow> error + trip list" where
  "pair_leftovers L avoid_small leftovers trips =
     bind_e (fold_e (pair_step L avoid_small leftovers) [0 ..< length leftovers] (trips, {}))
       (\<lambda>st. Inr (fst st))"

text \<open>
  \<open>generate_trips_for_pool\<close>: \<open>L\<close> is the C library, \<open>avoid_small\<close> picks the variant, \<open>fuel\<close> bounds each
  order's packing loop, \<open>r\<close> and \<open>rb\<close> are the random draws.
\<close>

definition generate_trips_for_pool ::
    "libm \<Rightarrow> bool \<Rightarrow> nat \<Rightarrow> pyfloat \<Rightarrow> (nat \<Rightarrow> nat) \<Rightarrow> orders list \<Rightarrow> (error + trip list) option" where
  "generate_trips_for_pool L avoid_small fuel r rb pool =
     (let sorted_pool = prioritize_pool_orders r rb pool in
      case direct_pass L fuel sorted_pool ([], []) of
        None \<Rightarrow> None
      | Some (Inl e) \<Rightarrow> Some (Inl e)
      | Some (Inr (trips, leftovers)) \<Rightarrow>
          Some (pair_leftovers L avoid_small (sort_desc l_volume leftovers) trips))"

section \<open>Fleet scheduling\<close>

















section \<open>Properties asked of the program\<close>

text \<open>The material-compatibility key of an order, as values, in the two variants.\<close>

definition material_key :: "orders \<Rightarrow> string \<times> pyfloat \<times> string \<times> string" where
  "material_key ord = (strength ord, Dmax ord, consistency ord, exposure ord)"

definition material_key3 :: "orders \<Rightarrow> string \<times> pyfloat \<times> string" where
  "material_key3 ord = (strength ord, Dmax ord, consistency ord)"

text \<open>
  A stable partition of \<open>ords\<close> by the key \<open>keyv\<close>: the pools together hold the orders,
  each once; a pool is not empty and holds exactly the orders that have the key of its
  first order, in their input order; no two pools have the same key.
\<close>

definition stable_partition :: "(orders \<Rightarrow> 'v) \<Rightarrow> orders list \<Rightarrow> orders list list \<Rightarrow> bool" where
  "stable_partition keyv ords pools \<longleftrightarrow>
     mset (concat pools) = mset ords \<and>
     (\<forall>os \<in> set pools. os \<noteq> [] \<and> os = filter (\<lambda>ord. keyv ord = keyv (hd os)) ords) \<and>
     distinct (map (\<lambda>os. keyv (hd os)) pools)"

text \<open>
  What holds of the dictionary after each order, from which the partition follows: the
  dictionary key of a pool is the key of its first order.
\<close>

definition pools_inv ::
    "(orders \<Rightarrow> 'k) \<Rightarrow> (orders \<Rightarrow> 'v) \<Rightarrow> orders list \<Rightarrow> 'k pools \<Rightarrow> bool" where
  "pools_inv keyf keyv ords ps \<longleftrightarrow>
     mset (concat (map snd ps)) = mset ords \<and>
     (\<forall>p \<in> set ps. snd p \<noteq> [] \<and> fst p = keyf (hd (snd p)) \<and>
        snd p = filter (\<lambda>x. keyv x = keyv (hd (snd p))) ords) \<and>
     distinct (map (\<lambda>p. keyv (hd (snd p))) ps)"

text \<open>A trip fits its truck; a leftover item is a positive rest below a medium truck.\<close>

definition trip_fits :: "trip \<Rightarrow> bool" where
  "trip_fits t = fle (volume t) (capacity (truck_type t))"

definition leftover_small :: "leftover \<Rightarrow> bool" where
  "leftover_small l = (case l_volume l of Fin v \<Rightarrow> 0 < v \<and> v < 7 | _ \<Rightarrow> False)"

text \<open>
  The age of the concrete when the second stop of a shared trip is served: loading,
  travel from the plant to the first stop, service, travel to the second stop, service.
\<close>

definition second_stop_age :: "libm \<Rightarrow> leftover \<Rightarrow> leftover \<Rightarrow> error + pyfloat" where
  "second_stop_age L s1 s2 =
     bind_e (calculate_distance L PLANT_COORDS (l_coordinates s1)) (\<lambda>d1.
     bind_e (calculate_distance L (l_coordinates s1) (l_coordinates s2)) (\<lambda>d2.
       Inr (fadd (fadd (fadd (fadd TIME_LOADING (get_travel_time d1)) TIME_SERVICE)
                   (get_travel_time d2)) TIME_SERVICE)))"

text \<open>The library's \<open>atan2\<close> returns an angle: a finite result lies between -4 and 4.\<close>

definition atan2_in_range :: "libm \<Rightarrow> bool" where
  "atan2_in_range L \<longleftrightarrow> (\<forall>y x r. lm_atan2 L y x = Fin r \<longrightarrow> \<bar>r\<bar> \<le> 4)"



section \<open>Example data\<close>

text \<open>An order of the given customer and volume, delivered at the plant's own coordinates.\<close>

definition example_order :: "int \<Rightarrow> pyfloat \<Rightarrow> orders" where
  "example_order cid vol =
     \<lparr>customer_id = cid, coordinates = PLANT_COORDS, order_volume = vol, strength = ''C25'',
      Dmax = Fin 16, Dmax_id = 0, consistency = ''F3'', exposure = ''XC1'',
      date = ''2024-01-01''\<rparr>"

text \<open>The same order with unknown coordinates: its distance to anything is the fallback.\<close>

definition unlocated_order :: "int \<Rightarrow> pyfloat \<Rightarrow> orders" where
  "unlocated_order cid vol =
     (example_order cid vol)\<lparr>coordinates := \<lparr>latitude = NaN, longitude = NaN\<rparr>\<rparr>"

text \<open>A C library that returns the nearest float every time.\<close>

definition atan2_real :: "real \<Rightarrow> real \<Rightarrow> real" where
  "atan2_real y x =
     (if 0 < x then arctan (y / x)
      else if x < 0 then (if 0 \<le> y then arctan (y / x) + pi else arctan (y / x) - pi)
      else if 0 < y then pi / 2 else if y < 0 then - pi / 2 else 0)"

definition ideal_libm :: libm where
  "ideal_libm = \<lparr>lm_sin = (\<lambda>a. b64 (sin a)), lm_cos = (\<lambda>a. b64 (cos a)),
                  lm_atan2 = (\<lambda>y x. b64 (atan2_real y x)),
                  lm_pow = (\<lambda>x y. b64 (if y = 2 then x * x else x powr y))\<rparr>"

text \<open>A leftover item of the given customer and volume, at the plant's coordinates.\<close>

definition example_leftover :: "int \<Rightarrow> pyfloat \<Rightarrow> leftover" where
  "example_leftover cid vol = leftover_of (example_order cid vol) vol"


section \<open>Rounding facts\<close>

lemma rne_int [simp]: "rne (of_int n) = n"
  by (simp add: rne_def)

lemma rne_ge: "of_int n \<le> x \<Longrightarrow> n \<le> rne x"
  unfolding rne_def by (auto simp: le_floor_iff intro: order_trans[OF _ le_of_int_ceiling] dest: order_trans) 

lemma rne_le: "x \<le> of_int n \<Longrightarrow> rne x \<le> n"
  unfolding rne_def using ceiling_le_iff floor_mono by fastforce


lemma log2_lower: "x \<noteq> 0 \<Longrightarrow> 2 powr (of_int \<lfloor>log 2 \<bar>x\<bar>\<rfloor>) \<le> \<bar>x\<bar>"
proof -
  assume x: "x \<noteq> 0"
  have "2 powr (of_int \<lfloor>log 2 \<bar>x\<bar>\<rfloor>) \<le> 2 powr (log 2 \<bar>x\<bar>)"
    by (intro powr_mono) auto
  also have "\<dots> = \<bar>x\<bar>" using x by simp
  finally show ?thesis .
qed

lemma log2_upper: "x \<noteq> 0 \<Longrightarrow> \<bar>x\<bar> < 2 powr (of_int (\<lfloor>log 2 \<bar>x\<bar>\<rfloor> + 1))"
proof -
  assume x: "x \<noteq> 0"
  have "log 2 \<bar>x\<bar> < of_int (\<lfloor>log 2 \<bar>x\<bar>\<rfloor> + 1)" by linarith
  then have "2 powr (log 2 \<bar>x\<bar>) < 2 powr (of_int (\<lfloor>log 2 \<bar>x\<bar>\<rfloor> + 1))"
    by (intro powr_less_mono) auto
  then show ?thesis using x by simp
qed


lemma b64_rd_sign_nonpos: "x \<le> 0 \<Longrightarrow> b64_rd x \<le> 0"
proof -
  assume x: "x \<le> 0"
  have "x / 2 powr (of_int (b64_exp x)) \<le> 0" using x by (simp add: divide_nonpos_pos)
  then have "rne (x / 2 powr (of_int (b64_exp x))) \<le> 0" using rne_le[of _ 0] by simp
  then show ?thesis by (simp add: b64_rd_def mult_nonpos_nonneg)
qed

lemma b64_rd_exact:
  assumes m: "\<bar>m\<bar> < 2 ^ 53" and e: "- 1074 \<le> e"
  shows "b64_rd (of_int m * 2 powr (of_int e)) = of_int m * 2 powr (of_int e)"
proof (cases "m = 0")
  case True then show ?thesis by (simp add: b64_rd_def)
next
  case False
  define x :: real where "x = of_int m * 2 powr (of_int e)"
  have x0: "x \<noteq> 0" using False by (simp add: x_def)
  define E where "E = \<lfloor>log 2 \<bar>x\<bar>\<rfloor>"
  define u where "u = b64_exp x"
  have u_def': "u = max E (- 1022) - 52" by (simp add: u_def b64_exp_def E_def)
  have ue: "u \<le> e"
  proof (rule ccontr)
    assume "\<not> u \<le> e"
    then have eu: "e < u" by simp
    with e u_def' have uE: "u = E - 52" by linarith
    have "2 powr (of_int E) \<le> \<bar>x\<bar>" unfolding E_def using log2_lower[OF x0] .
    then have "2 powr (of_int E) \<le> \<bar>of_int m :: real\<bar> * 2 powr (of_int e)"
      by (simp add: x_def abs_mult)
    then have "2 powr (of_int E) / 2 powr (of_int e) \<le> \<bar>of_int m :: real\<bar>"
      by (simp add: divide_le_eq)
    then have "2 powr (of_int (E - e)) \<le> \<bar>of_int m :: real\<bar>"
      by (simp add: powr_diff)
    moreover have "(2::real) powr 53 \<le> 2 powr (of_int (E - e))"
      using eu uE by (intro powr_mono) auto
    ultimately have "(2::real) ^ 53 \<le> \<bar>of_int m\<bar>" by simp
    then have "(2::real) ^ 53 \<le> of_int \<bar>m\<bar>" by simp
    then have "2 ^ 53 \<le> \<bar>m\<bar>" by (metis of_int_le_iff of_int_numeral of_int_power)
    with m show False by simp
  qed
  have "x / 2 powr (of_int u) = of_int m * 2 powr (of_int (e - u))"
    by (simp add: x_def powr_diff)
  also have "2 powr (of_int (e - u)) = (2::real) ^ nat (e - u)"
  proof -
    have "(of_int (e - u) :: real) = real (nat (e - u))" using ue by simp
    then show ?thesis by (simp only: powr_realpow[of 2, simplified])
  qed
  also have "of_int m * (2::real) ^ nat (e - u) = of_int (m * 2 ^ nat (e - u))" by simp
  finally have q: "x / 2 powr (of_int u) = of_int (m * 2 ^ nat (e - u))" .
  have "b64_rd x = of_int (rne (x / 2 powr (of_int u))) * 2 powr (of_int u)"
    using x0 by (simp add: b64_rd_def u_def)
  also have "\<dots> = (x / 2 powr (of_int u)) * 2 powr (of_int u)"
    unfolding q rne_int ..
  also have "\<dots> = x" by simp
  finally show ?thesis by (simp add: x_def)
qed

lemma b64_never_nan [simp]: "b64 x \<noteq> NaN"
  by (simp add: b64_def Let_def)

lemma b64_exact:
  assumes "\<bar>m\<bar> < 2 ^ 53" and "- 1074 \<le> e" and "e \<le> 971"
  shows "b64 (of_int m * 2 powr (of_int e)) = Fin (of_int m * 2 powr (of_int e))"
proof -
  have "\<bar>of_int m :: real\<bar> < 2 ^ 53" using assms(1)
    by (metis of_int_abs of_int_less_iff of_int_numeral of_int_power)
  moreover have "(2::real) powr (of_int e) \<le> 2 powr 971" using assms(3) by (intro powr_mono) auto
  ultimately have "\<bar>of_int m :: real\<bar> * 2 powr (of_int e) < 2 ^ 53 * 2 powr 971"
    by (intro mult_less_le_imp_less) auto
  also have "(2::real) ^ 53 * 2 powr 971 = 2 ^ 1024" 
    by (simp add: powr_realpow[symmetric] flip: powr_add)
  finally have lt: "\<bar>of_int m * 2 powr (of_int e) :: real\<bar> < 2 ^ 1024" by (simp add: abs_mult)
  have a: "\<not> (2 ^ 1024 :: real) \<le> of_int m * 2 powr (of_int e)"
    using lt unfolding abs_less_iff not_le by (rule conjunct1)
  have "- (of_int m * 2 powr (of_int e)) < (2 ^ 1024 :: real)"
    using lt unfolding abs_less_iff by (rule conjunct2)
  then have b: "\<not> of_int m * 2 powr (of_int e) \<le> - (2 ^ 1024 :: real)"
    unfolding not_le by (rule iffD1[OF minus_less_iff])
  show ?thesis unfolding b64_def Let_def b64_rd_exact[OF assms(1,2)] using a b by (simp only: if_False)
qed

lemma b64_rd_le_pow:
  assumes k: "- 1021 \<le> k" and x: "\<bar>x\<bar> \<le> 2 powr (of_int k)"
  shows "\<bar>b64_rd x\<bar> \<le> 2 powr (of_int k)"
proof (cases "x = 0")
  case True then show ?thesis by (simp add: b64_rd_def)
next
  case False
  define u where "u = b64_exp x"
  have "(2::real) powr (of_int \<lfloor>log 2 \<bar>x\<bar>\<rfloor>) \<le> 2 powr (of_int k)"
    using log2_lower[OF False] x by linarith
  then have "\<lfloor>log 2 \<bar>x\<bar>\<rfloor> \<le> k" by simp
  then have uk: "u \<le> k - 52" using k by (simp add: u_def b64_exp_def)
  define N :: int where "N = 2 ^ nat (k - u)"
  have pw: "(2::real) powr (of_int k) = of_int N * 2 powr (of_int u)"
  proof -
    have "(of_int (k - u) :: real) = real (nat (k - u))" using uk by simp
    then have "(2::real) powr (of_int (k - u)) = (2::real) ^ nat (k - u)"
      by (simp only: powr_realpow[of 2, simplified])
    then have "(2::real) powr (of_int k) / 2 powr (of_int u) = of_int N"
      by (simp add: N_def powr_diff)
    then show ?thesis by (simp add: field_simps)
  qed
  have pos: "0 < (2::real) powr (of_int u)" by simp
  have "\<bar>x\<bar> / 2 powr (of_int u) \<le> of_int N"
    using x pos by (simp add: pw pos_divide_le_eq)
  then have h: "\<bar>x / 2 powr (of_int u)\<bar> \<le> of_int N" by (simp add: abs_divide)
  have q1: "x / 2 powr (of_int u) \<le> of_int N" using h by linarith
  have "- real_of_int N \<le> x / 2 powr (of_int u)" using h by linarith
  then have q2: "of_int (- N) \<le> x / 2 powr (of_int u)" by simp
  have "rne (x / 2 powr (of_int u)) \<le> N" "- N \<le> rne (x / 2 powr (of_int u))"
    using rne_le[OF q1] rne_ge[OF q2] by auto
  then have "\<bar>of_int (rne (x / 2 powr (of_int u))) :: real\<bar> \<le> of_int N"
    by (simp add: abs_le_iff)
  then have "\<bar>of_int (rne (x / 2 powr (of_int u))) * 2 powr (of_int u) :: real\<bar> \<le> of_int N * 2 powr (of_int u)"
    by (simp add: abs_mult)
  then show ?thesis using False by (simp add: b64_rd_def u_def[symmetric] pw)
qed

lemma b64_rd_ge_pow:
  assumes k: "- 1022 \<le> k" and x: "2 powr (of_int k) \<le> x"
  shows "2 powr (of_int k) \<le> b64_rd x"
proof -
  have x0: "x \<noteq> 0" "0 < x" using x powr_gt_zero[of 2 "of_int k"] by linarith+
  define E where "E = \<lfloor>log 2 \<bar>x\<bar>\<rfloor>"
  have "\<bar>x\<bar> < 2 powr (of_int (E + 1))"
    unfolding E_def by (rule log2_upper[OF x0(1)])
  then have "x < 2 powr (of_int (E + 1))" using x0(2) by linarith
  with x have "(2::real) powr (of_int k) < 2 powr (of_int (E + 1))"
    by (rule le_less_trans)
  then have kE: "k \<le> E" by simp
  then have u: "b64_exp x = E - 52" using k by (simp add: b64_exp_def E_def)
  have "(2::real) powr (of_int E) \<le> x" using log2_lower[OF x0(1)] x0(2) by (simp add: E_def)
  then have "(2::real) powr (of_int E) / 2 powr (of_int (E - 52)) \<le> x / 2 powr (of_int (E - 52))"
    by (simp add: divide_right_mono)
  moreover have "(2::real) powr (of_int E) / 2 powr (of_int (E - 52)) = (of_int (2 ^ 52) :: real)"
    by (simp add: powr_diff[symmetric])
  ultimately have "2 ^ 52 \<le> rne (x / 2 powr (of_int (E - 52)))"
    using rne_ge[of "2 ^ 52"] by simp
  then have "(2 ^ 52 :: real) \<le> of_int (rne (x / 2 powr (of_int (E - 52))))"
    by (metis of_int_le_iff of_int_numeral of_int_power)
  then have "(2 ^ 52 :: real) * 2 powr (of_int (E - 52)) \<le> b64_rd x"
    using x0 by (simp add: b64_rd_def u)
  moreover have "(2 ^ 52 :: real) * 2 powr (of_int (E - 52)) = 2 powr (of_int E)"
    by (simp add: powr_diff)
  moreover have "2 powr (of_int k) \<le> (2::real) powr (of_int E)" using kE by simp
  ultimately show ?thesis by linarith
qed

lemma b64_11_10: "\<exists>k. b64 (11 / 10) = Fin k \<and> 1 \<le> k \<and> k \<le> 2"
proof -
  have a: "(2::real) powr (of_int 0) \<le> b64_rd (11 / 10)"
    by (rule b64_rd_ge_pow) simp_all
  have b: "\<bar>b64_rd (11 / 10)\<bar> \<le> (2::real) powr (of_int 1)"
    by (rule b64_rd_le_pow) simp_all
  from a have a': "1 \<le> b64_rd (11 / 10)" by simp
  from b have b': "b64_rd (11 / 10) \<le> 2" by simp
  have "(2::real) < 2 ^ 1024" by simp
  with b' have c: "b64_rd (11 / 10) < 2 ^ 1024" by linarith
  have d: "\<not> b64_rd (11 / 10) \<le> - (2 ^ 1024)" using a' by simp
  show ?thesis using a' b' c d by (simp add: b64_def Let_def not_le[symmetric])
qed

lemma b64_pi: "\<exists>p. b64 pi = Fin p \<and> 2 \<le> p \<and> p \<le> 4"
proof -
  have p1: "2 \<le> pi" "pi < 4" using pi_ge_two pi_less_4 by auto
  have "(2::real) powr (of_int 1) \<le> pi" using p1 by simp
  then have "(2::real) powr (of_int 1) \<le> b64_rd pi"
    by (intro b64_rd_ge_pow) simp_all
  then have a: "2 \<le> b64_rd pi" by simp
  have "\<bar>pi\<bar> \<le> (2::real) powr (of_int 2)" using p1 by simp
  then have "\<bar>b64_rd pi\<bar> \<le> (2::real) powr (of_int 2)"
    by (intro b64_rd_le_pow) simp_all
  then have b: "b64_rd pi \<le> 4" by simp
  have "(4::real) < 2 ^ 1024" by simp
  with b have c: "b64_rd pi < 2 ^ 1024" by linarith
  have d: "\<not> b64_rd pi \<le> - (2 ^ 1024)" using a by simp
  show ?thesis using a b c d by (simp add: b64_def Let_def not_le[symmetric])
qed

lemma deg_to_rad: "\<exists>k. deg_to_rad = Fin k \<and> 0 < k \<and> k \<le> 1"
proof -
  obtain p where p: "b64 pi = Fin p" "2 \<le> p" "p \<le> 4" using b64_pi by blast
  have e: "(2::real) powr (of_int (- 7)) = 1 / 128" by (simp add: powr_minus_divide)
  have "(2::real) powr (of_int (- 7)) \<le> p / 180" unfolding e using p by simp
  then have a: "(2::real) powr (of_int (- 7)) \<le> b64_rd (p / 180)"
    by (intro b64_rd_ge_pow) simp_all
  have "\<bar>p / 180\<bar> \<le> (2::real) powr (of_int 0)" using p by simp
  then have b: "\<bar>b64_rd (p / 180)\<bar> \<le> (2::real) powr (of_int 0)"
    by (intro b64_rd_le_pow) simp_all
  from a have a': "0 < b64_rd (p / 180)"
    using powr_gt_zero[of 2 "of_int (- 7)"] by linarith
  from b have b': "b64_rd (p / 180) \<le> 1" by simp
  have "(1::real) < 2 ^ 1024" by simp
  with b' have c: "b64_rd (p / 180) < 2 ^ 1024" by linarith
  have d: "\<not> b64_rd (p / 180) \<le> - (2 ^ 1024)" using a' by simp
  have "b64 (p / 180) = Fin (b64_rd (p / 180))"
    using c d by (simp add: b64_def Let_def not_le[symmetric])
  then show ?thesis using a' b' p(1) by (simp add: deg_to_rad_def)
qed

lemma m_radians_fin: "\<exists>k. 0 < k \<and> k \<le> 1 \<and> (\<forall>x. m_radians x = fmul x (Fin k))"
proof -
  obtain k where k: "deg_to_rad = Fin k" "0 < k" "k \<le> 1" using deg_to_rad by blast
  have "m_radians x = fmul x (Fin k)" for x using k(1) by (metis m_radians.simps)
  then show ?thesis using k(2,3) by blast
qed

lemma b64_zero [simp]: "b64 0 = Fin 0"
  by (simp add: b64_def b64_rd_def)

section \<open>Facts about the comparisons\<close>

lemma flt_irrefl [simp]: "\<not> flt a a"
  by (cases a) simp_all

lemma not_flt_fle: "a \<noteq> NaN \<Longrightarrow> b \<noteq> NaN \<Longrightarrow> \<not> flt a b \<Longrightarrow> fle b a"
  by (cases a; cases b) simp_all

lemma flt_fle: "flt a b \<Longrightarrow> fle a b"
  by (cases a; cases b) simp_all

lemma fle_trans: "fle a b \<Longrightarrow> fle b c \<Longrightarrow> fle a c"
  by (cases a; cases b; cases c) simp_all

lemma fle_not_nan: "fle a b \<Longrightarrow> a \<noteq> NaN \<and> b \<noteq> NaN"
  by (cases a; cases b) simp_all

lemma flt_not_nan: "flt a b \<Longrightarrow> a \<noteq> NaN \<and> b \<noteq> NaN"
  by (cases a; cases b) simp_all

section \<open>The descending sort\<close>

lemma mset_insort_desc [simp]: "mset (insort_desc key x ys) = add_mset x (mset ys)"
  by (induction ys) simp_all

lemma mset_sort_desc [simp]: "mset (sort_desc key xs) = mset xs"
  by (induction xs) (simp_all add: sort_desc_def)

lemma set_insort_desc [simp]: "set (insort_desc key x ys) = insert x (set ys)"
  by (induction ys) auto

lemma set_sort_desc [simp]: "set (sort_desc key xs) = set xs"
  using mset_sort_desc[of key xs] by (metis set_mset_mset)

lemma length_sort_desc [simp]: "length (sort_desc key xs) = length xs"
  using mset_sort_desc[of key xs] by (metis size_mset)

lemma sorted_insort_desc:
  assumes "key x \<noteq> NaN" and "\<forall>y\<in>set ys. key y \<noteq> NaN"
    and "sorted_wrt (\<lambda>a b. fge (key a) (key b)) ys"
  shows "sorted_wrt (\<lambda>a b. fge (key a) (key b)) (insort_desc key x ys)"
  using assms
proof (induction ys)
  case Nil
  then show ?case by simp
next
  case (Cons y ys)
  show ?case
  proof (cases "flt (key x) (key y)")
    case True
    have "sorted_wrt (\<lambda>a b. fge (key a) (key b)) (insort_desc key x ys)"
      using Cons by simp
    moreover have "\<forall>z\<in>set (insort_desc key x ys). fge (key y) (key z)"
      using Cons.prems True by (auto simp add: fge_def flt_fle)
    ultimately show ?thesis using True by simp
  next
    case False
    have yx: "fle (key y) (key x)" using False Cons.prems by (simp add: not_flt_fle)
    have "\<forall>z\<in>set ys. fle (key z) (key x)"
    proof
      fix z assume "z \<in> set ys"
      then have "fle (key z) (key y)" using Cons.prems by (simp add: fge_def)
      then show "fle (key z) (key x)" using yx by (rule fle_trans)
    qed
    then show ?thesis using False yx Cons.prems by (simp add: fge_def)
  qed
qed

lemma sorted_sort_desc:
  "\<forall>y\<in>set xs. key y \<noteq> NaN \<Longrightarrow> sorted_wrt (\<lambda>a b. fge (key a) (key b)) (sort_desc key xs)"
proof (induction xs)
  case Nil
  then show ?case by (simp add: sort_desc_def)
next
  case (Cons x xs)
  have "sorted_wrt (\<lambda>a b. fge (key a) (key b)) (insort_desc key x (sort_desc key xs))"
    using Cons by (intro sorted_insort_desc) simp_all
  then show ?case by (simp add: sort_desc_def)
qed

lemma filter_insort_desc:
  "filter (\<lambda>a. key a = v) (insort_desc key x ys) =
     (if key x = v then x # filter (\<lambda>a. key a = v) ys else filter (\<lambda>a. key a = v) ys)"
  by (induction ys) auto

lemma filter_sort_desc: "filter (\<lambda>a. key a = v) (sort_desc key xs) = filter (\<lambda>a. key a = v) xs"
  by (induction xs) (simp_all add: sort_desc_def filter_insort_desc)

lemma b64_45_100: "\<exists>k. b64 (45 / 100) = Fin k \<and> 1 / 4 \<le> k \<and> k \<le> 1 / 2"
proof -
  have e2: "(2::real) powr (of_int (- 2)) = 1 / 4" by (simp add: powr_minus_divide)
  have e1: "(2::real) powr (of_int (- 1)) = 1 / 2" by (simp add: powr_minus_divide)
  have "(2::real) powr (of_int (- 2)) \<le> 45 / 100" unfolding e2 by simp
  then have "(2::real) powr (of_int (- 2)) \<le> b64_rd (45 / 100)"
    by (intro b64_rd_ge_pow) simp_all
  then have a: "1 / 4 \<le> b64_rd (45 / 100)" unfolding e2 .
  have "\<bar>45 / 100 :: real\<bar> \<le> 2 powr (of_int (- 1))" unfolding e1 by simp
  then have "\<bar>b64_rd (45 / 100)\<bar> \<le> (2::real) powr (of_int (- 1))"
    by (intro b64_rd_le_pow) simp_all
  then have b: "b64_rd (45 / 100) \<le> 1 / 2" unfolding e1 by linarith
  have "(1 / 2 ::real) < 2 ^ 1024" by simp
  with b have c: "b64_rd (45 / 100) < 2 ^ 1024" by linarith
  have d: "\<not> b64_rd (45 / 100) \<le> - (2 ^ 1024)" using a by simp
  show ?thesis using a b c d by (simp add: b64_def Let_def not_le[symmetric])
qed


section \<open>Rounding error\<close>







lemma b64_bounded:
  assumes "\<bar>x\<bar> \<le> 2 powr (of_int k)" and "- 1021 \<le> k" and "k \<le> 1023"
  shows "\<exists>y. b64 x = Fin y \<and> \<bar>y\<bar> \<le> 2 powr (of_int k)"
proof -
  have e: "\<bar>b64_rd x\<bar> \<le> 2 powr (of_int k)" using assms(2,1) by (rule b64_rd_le_pow)
  have "(2::real) powr (of_int k) \<le> 2 powr (of_int 1023)"
    using assms(3) by (intro powr_mono) simp_all
  also have "\<dots> < 2 ^ 1024" by simp
  finally have lt: "(2::real) powr (of_int k) < 2 ^ 1024" .
  have a: "\<not> (2 ^ 1024 :: real) \<le> b64_rd x" and b: "\<not> b64_rd x \<le> - (2 ^ 1024 :: real)"
    using e lt by linarith+
  show ?thesis using a b e by (simp add: b64_def Let_def)
qed

lemma b64_le_one: "\<bar>x\<bar> \<le> 1 \<Longrightarrow> \<exists>y. b64 x = Fin y \<and> \<bar>y\<bar> \<le> 1"
  using b64_bounded[of x 0] by simp

lemma b64_one [simp]: "b64 1 = Fin 1"
  using b64_exact[of 1 0] by simp

lemma same_point_distance:
  assumes "latitude p = Fin a" and "longitude p = Fin b" and "\<bar>a\<bar> \<le> 1024" and "\<bar>b\<bar> \<le> 1024"
  shows "calculate_distance ideal_libm p p = Inr (Fin 0)"
proof -
  obtain k where k: "0 < k" "k \<le> 1" and r: "\<And>x. m_radians x = fmul x (Fin k)"
    using m_radians_fin by blast
  have ak: "\<bar>a * k\<bar> \<le> 1024 * 1"
    unfolding abs_mult using assms(3) k by (intro mult_mono) simp_all
  have "\<bar>a * k\<bar> \<le> 2 powr (of_int 10)" using ak by simp
  then obtain la where la: "b64 (a * k) = Fin la" using b64_bounded[of "a * k" 10] by auto
  have bk: "\<bar>b * k\<bar> \<le> 1024 * 1"
    unfolding abs_mult using assms(4) k by (intro mult_mono) simp_all
  have "\<bar>b * k\<bar> \<le> 2 powr (of_int 10)" using bk by simp
  then obtain lo where lo: "b64 (b * k) = Fin lo" using b64_bounded[of "b * k" 10] by auto
  obtain c1 where c1: "b64 (cos la) = Fin c1" "\<bar>c1\<bar> \<le> 1" using b64_le_one[of "cos la"] by auto
  have "\<bar>c1 * c1\<bar> \<le> 1 * 1"
    unfolding abs_mult using c1(2) by (intro mult_mono) simp_all
  then have "\<bar>c1 * c1\<bar> \<le> 1" by simp
  then obtain c2 where c2: "b64 (c1 * c1) = Fin c2" using b64_le_one[of "c1 * c1"] by auto
  show ?thesis
    using assms(1,2) la lo c1(1) c2
    by (simp add: calculate_distance_def is_nan_def fsub_def bind_e_def ideal_libm_def
        atan2_real_def Let_def r del: m_radians.simps)
qed

lemma travel_time_zero [simp]: "get_travel_time (Fin 0) = Fin 0"
  using b64_11_10 by (auto simp add: get_travel_time_def is_nan_def SPEED_KMH_def)

section \<open>Trips at the plant and the packing loop\<close>

lemma b64_numeral [simp]: "(numeral n :: int) < 2 ^ 53 \<Longrightarrow> b64 (numeral n) = Fin (numeral n)"
  using b64_exact[of "numeral n" 0] by simp

lemma b64_quarters: "\<bar>m\<bar> < 2 ^ 53 \<Longrightarrow> b64 (of_int m / 4) = Fin (of_int m / 4)"
  using b64_exact[of m "- 2"] by (simp add: powr_minus_divide)

lemma b64_quarter [simp]: "b64 (1 / 4) = Fin (1 / 4)"
  using b64_quarters[of 1] by simp

lemma b64_seven_quarters [simp]: "b64 (7 / 4) = Fin (7 / 4)"
  using b64_quarters[of 7] by simp

lemma plant_distance [simp]: "calculate_distance ideal_libm PLANT_COORDS PLANT_COORDS = Inr (Fin 0)"
proof -
  obtain a where a: "b64 (47624 / 1000) = Fin a" "\<bar>a\<bar> \<le> 2 powr (of_int 10)"
    using b64_bounded[of "47624 / 1000" 10] by auto
  obtain b where b: "b64 (190655 / 10000) = Fin b" "\<bar>b\<bar> \<le> 2 powr (of_int 10)"
    using b64_bounded[of "190655 / 10000" 10] by auto
  show ?thesis
    using a b by (intro same_point_distance[of _ a b]) (simp_all add: PLANT_COORDS_def)
qed

lemma direct_trip_at_plant:
  "coordinates ord = PLANT_COORDS \<Longrightarrow>
   direct_trip ideal_libm ord tt cap =
     Inr \<lparr>truck_type = tt, stops = [customer_id ord], volume = cap, duration = Fin 1,
          concrete_age_at_finish = Some (Fin 1), route_type = Direct\<rparr>"
  by (simp add: direct_trip_def bind_e_def Let_def TIME_LOADING_def TIME_SERVICE_def)









section \<open>Pools\<close>

lemma mset_pools_add:
  "mset (concat (map snd (pools_add keq k ord ps))) = add_mset ord (mset (concat (map snd ps)))"
  by (induction ps) auto

lemma pools_add_new:
  "\<forall>p \<in> set ps. \<not> keq k (fst p) \<Longrightarrow> pools_add keq k ord ps = ps @ [(k, [ord])]"
  by (induction ps) auto

lemma pools_add_match:
  "distinct (map kv ps) \<Longrightarrow> \<forall>p \<in> set ps. keq k (fst p) \<longleftrightarrow> kv p = v \<Longrightarrow> \<exists>p \<in> set ps. kv p = v \<Longrightarrow>
   pools_add keq k ord ps = map (\<lambda>p. if kv p = v then (fst p, snd p @ [ord]) else p) ps"
proof (induction ps)
  case Nil
  then show ?case by simp
next
  case (Cons p ps)
  obtain k' os where p: "p = (k', os)" by (cases p)
  show ?case
  proof (cases "kv p = v")
    case True
    then have m: "keq k k'" using Cons.prems(2) p by simp
    have "\<forall>q \<in> set ps. kv q \<noteq> v" using Cons.prems(1) True by (force simp add: image_iff)
    then have "map (\<lambda>p. if kv p = v then (fst p, snd p @ [ord]) else p) ps = ps"
      by (simp add: map_idI)
    then show ?thesis using True m p by simp
  next
    case False
    then have m: "\<not> keq k k'" using Cons.prems(2) p by simp
    have "\<exists>q \<in> set ps. kv q = v" using Cons.prems(3) False by auto
    then have "pools_add keq k ord ps =
        map (\<lambda>p. if kv p = v then (fst p, snd p @ [ord]) else p) ps"
      using Cons.IH Cons.prems(1,2) by simp
    then show ?thesis using False m p by simp
  qed
qed

lemma pools_inv_step:
  assumes H: "\<And>x y. x \<in> set (ords @ [ord]) \<Longrightarrow> y \<in> set (ords @ [ord]) \<Longrightarrow>
                keq (keyf x) (keyf y) \<longleftrightarrow> keyv x = keyv y"
    and inv: "pools_inv keyf keyv ords ps"
  shows "pools_inv keyf keyv (ords @ [ord]) (pools_add keq (keyf ord) ord ps)"
proof -
  let ?k = "keyf ord"
  let ?v = "keyv ord"
  let ?kv = "\<lambda>p. keyv (hd (snd p))"
  let ?G = "\<lambda>os p. snd p \<noteq> [] \<and> fst p = keyf (hd (snd p)) \<and>
        snd p = filter (\<lambda>x. keyv x = keyv (hd (snd p))) os"
  have ms: "mset (concat (map snd ps)) = mset ords"
    using inv unfolding pools_inv_def by (rule conjunct1)
  have el0: "\<forall>p \<in> set ps. ?G ords p"
    using inv unfolding pools_inv_def by blast
  have ds: "distinct (map ?kv ps)"
    using inv unfolding pools_inv_def by blast
  have e1: "snd p \<noteq> []" and e2: "fst p = keyf (hd (snd p))"
    and e3: "snd p = filter (\<lambda>x. keyv x = ?kv p) ords"
    if "p \<in> set ps" for p
    using el0 that by blast+
  have hdin: "hd (snd p) \<in> set ords" if pin: "p \<in> set ps" for p
  proof -
    have "hd (snd p) \<in> set (snd p)" using e1[OF pin] by simp
    then have "hd (snd p) \<in> set (filter (\<lambda>x. keyv x = ?kv p) ords)"
      using e3[OF pin] by simp
    then show ?thesis by simp
  qed
  have mt: "keq ?k (fst p) \<longleftrightarrow> ?kv p = ?v" if pin: "p \<in> set ps" for p
  proof -
    have "keq (keyf ord) (keyf (hd (snd p))) \<longleftrightarrow> keyv ord = keyv (hd (snd p))"
      using hdin[OF pin] by (intro H) simp_all
    then show ?thesis unfolding e2[OF pin] by auto
  qed
  have ms': "mset (concat (map snd (pools_add keq ?k ord ps))) = mset (ords @ [ord])"
    using ms by (simp add: mset_pools_add)
  have goal: "pools_inv keyf keyv (ords @ [ord]) qs"
    if q1: "mset (concat (map snd qs)) = mset (ords @ [ord])"
      and q2: "\<And>q. q \<in> set qs \<Longrightarrow> ?G (ords @ [ord]) q"
      and q3: "distinct (map ?kv qs)" for qs
  proof -
    have "\<forall>q \<in> set qs. ?G (ords @ [ord]) q" using q2 by blast
    then show ?thesis unfolding pools_inv_def using q1 q3 by blast
  qed
  show ?thesis
  proof (cases "\<exists>p \<in> set ps. ?kv p = ?v")
    case False
    then have nv: "\<And>p. p \<in> set ps \<Longrightarrow> ?kv p \<noteq> ?v" by blast
    have "\<forall>p \<in> set ps. \<not> keq ?k (fst p)" using mt nv by blast
    then have new: "pools_add keq ?k ord ps = ps @ [(?k, [ord])]"
      by (rule pools_add_new)
    have nokey: "filter (\<lambda>x. keyv x = ?v) ords = []"
    proof (rule ccontr)
      assume "filter (\<lambda>x. keyv x = ?v) ords \<noteq> []"
      then obtain x where x: "x \<in> set ords" "keyv x = ?v"
        unfolding filter_empty_conv by blast
      from x(1) have "x \<in> set (concat (map snd ps))"
        using ms by (metis set_mset_mset)
      then obtain p where p: "p \<in> set ps" "x \<in> set (snd p)" by auto
      have "x \<in> set (filter (\<lambda>x. keyv x = ?kv p) ords)" using p(2) e3[OF p(1)] by simp
      then have "keyv x = ?kv p" by simp
      then show False using nv[OF p(1)] x(2) by simp
    qed
    have old: "?G (ords @ [ord]) p" if pin: "p \<in> set ps" for p
    proof (intro conjI)
      show "snd p \<noteq> []" by (rule e1[OF pin])
      show "fst p = keyf (hd (snd p))" by (rule e2[OF pin])
      have "?v \<noteq> ?kv p" using nv[OF pin] by auto
      then have "filter (\<lambda>x. keyv x = ?kv p) (ords @ [ord]) = filter (\<lambda>x. keyv x = ?kv p) ords"
        by simp
      then show "snd p = filter (\<lambda>x. keyv x = ?kv p) (ords @ [ord])"
        using e3[OF pin] by simp
    qed
    have newp: "?G (ords @ [ord]) (?k, [ord])"
      using nokey by simp
    have "?v \<notin> set (map ?kv ps)"
    proof
      assume "?v \<in> set (map ?kv ps)"
      then obtain p where "p \<in> set ps" "?kv p = ?v" unfolding set_map by force
      then show False using nv by blast
    qed
    then have ds': "distinct (map ?kv (ps @ [(?k, [ord])]))"
      using ds by simp
    have "pools_inv keyf keyv (ords @ [ord]) (ps @ [(?k, [ord])])"
    proof (rule goal)
      show "mset (concat (map snd (ps @ [(?k, [ord])]))) = mset (ords @ [ord])"
        using ms' unfolding new .
      show "?G (ords @ [ord]) q" if "q \<in> set (ps @ [(?k, [ord])])" for q
      proof -
        from that have "q \<in> set ps \<or> q = (?k, [ord])" by auto
        then show ?thesis using old newp by blast
      qed
      show "distinct (map ?kv (ps @ [(?k, [ord])]))" by (rule ds')
    qed
    then show ?thesis unfolding new .
  next
    case True
    let ?f = "\<lambda>p. if ?kv p = ?v then (fst p, snd p @ [ord]) else p"
    have "\<forall>p \<in> set ps. keq ?k (fst p) \<longleftrightarrow> ?kv p = ?v" using mt by blast
    then have upd: "pools_add keq ?k ord ps = map ?f ps"
      using ds True by (intro pools_add_match) blast+
    have kvf: "?kv (?f p) = ?kv p" if pin: "p \<in> set ps" for p
      using e1[OF pin] by simp
    have el': "?G (ords @ [ord]) (?f p)" if pin: "p \<in> set ps" for p
    proof (cases "?kv p = ?v")
      case True
      have fp: "?f p = (fst p, snd p @ [ord])" using True by simp
      have h: "hd (snd p @ [ord]) = hd (snd p)" using e1[OF pin] by simp
      have "filter (\<lambda>x. keyv x = ?kv p) (ords @ [ord]) = filter (\<lambda>x. keyv x = ?kv p) ords @ [ord]"
        using True by simp
      then have f2: "snd p @ [ord] = filter (\<lambda>x. keyv x = ?kv p) (ords @ [ord])"
        using e3[OF pin] by simp
      show ?thesis unfolding fp fst_conv snd_conv h
      proof (intro conjI)
        show "snd p @ [ord] \<noteq> []" by simp
        show "fst p = keyf (hd (snd p))" by (rule e2[OF pin])
        show "snd p @ [ord] = filter (\<lambda>x. keyv x = ?kv p) (ords @ [ord])" by (rule f2)
      qed
    next
      case False
      then have fp: "?f p = p" by simp
      show ?thesis unfolding fp
      proof (intro conjI)
        show "snd p \<noteq> []" by (rule e1[OF pin])
        show "fst p = keyf (hd (snd p))" by (rule e2[OF pin])
        have "?v \<noteq> ?kv p" using False by auto
        then have "filter (\<lambda>x. keyv x = ?kv p) (ords @ [ord]) = filter (\<lambda>x. keyv x = ?kv p) ords"
          by simp
        then show "snd p = filter (\<lambda>x. keyv x = ?kv p) (ords @ [ord])"
          using e3[OF pin] by simp
      qed
    qed
    have eqm: "map ?kv (map ?f ps) = map ?kv ps"
      unfolding map_map comp_def using kvf by (intro map_cong) auto
    have ds': "distinct (map ?kv (map ?f ps))" by (subst eqm) (rule ds)
    have "pools_inv keyf keyv (ords @ [ord]) (map ?f ps)"
    proof (rule goal)
      show "mset (concat (map snd (map ?f ps))) = mset (ords @ [ord])"
        using ms' unfolding upd .
      show "?G (ords @ [ord]) q" if "q \<in> set (map ?f ps)" for q
      proof -
        from that obtain p where "p \<in> set ps" "q = ?f p" unfolding set_map by blast
        then show ?thesis using el' by blast
      qed
      show "distinct (map ?kv (map ?f ps))" by (rule ds')
    qed
    then show ?thesis unfolding upd .
  qed
qed

lemma create_pools_by_snoc:
  "create_pools_by keyf keq (ords @ [ord]) = pools_add keq (keyf ord) ord (create_pools_by keyf keq ords)"
  by (simp add: create_pools_by_def)

lemma pools_inv_create_pools_by:
  "(\<And>x y. x \<in> set ords \<Longrightarrow> y \<in> set ords \<Longrightarrow> keq (keyf x) (keyf y) \<longleftrightarrow> keyv x = keyv y)
   \<Longrightarrow> pools_inv keyf keyv ords (create_pools_by keyf keq ords)"
proof (induction ords rule: rev_induct)
  case Nil
  show ?case by (simp add: pools_inv_def create_pools_by_def)
next
  case (snoc ord ords)
  have "pools_inv keyf keyv ords (create_pools_by keyf keq ords)"
    using snoc.prems by (intro snoc.IH) simp_all
  then show ?case unfolding create_pools_by_snoc
    using snoc.prems by (intro pools_inv_step) blast+
qed

lemma pools_inv_stable_partition:
  assumes "pools_inv keyf keyv ords ps"
  shows "stable_partition keyv ords (map snd ps)"
proof -
  have "mset (concat (map snd ps)) = mset ords"
    using assms unfolding pools_inv_def by (rule conjunct1)
  moreover have "\<forall>os \<in> set (map snd ps). os \<noteq> [] \<and> os = filter (\<lambda>x. keyv x = keyv (hd os)) ords"
  proof
    fix os assume "os \<in> set (map snd ps)"
    then obtain p where p: "p \<in> set ps" "os = snd p" unfolding set_map by blast
    have "snd p \<noteq> [] \<and> snd p = filter (\<lambda>x. keyv x = keyv (hd (snd p))) ords"
      using assms p(1) unfolding pools_inv_def by blast
    then show "os \<noteq> [] \<and> os = filter (\<lambda>x. keyv x = keyv (hd os)) ords" unfolding p(2) .
  qed
  moreover have "distinct (map (\<lambda>os. keyv (hd os)) (map snd ps))"
  proof -
    have "distinct (map (\<lambda>p. keyv (hd (snd p))) ps)"
      using assms unfolding pools_inv_def by blast
    then show ?thesis by (simp add: comp_def)
  qed
  ultimately show ?thesis unfolding stable_partition_def by blast
qed

lemma key_eq_material:
  "Dmax x \<noteq> NaN \<Longrightarrow> key_eq (order_key x) (order_key y) \<longleftrightarrow> material_key x = material_key y"
  by (auto simp add: key_eq_def order_key_def material_key_def item_eq_def feq_def)

lemma key3_eq_material:
  "Dmax x \<noteq> NaN \<Longrightarrow> key3_eq (order_key3 x) (order_key3 y) \<longleftrightarrow> material_key3 x = material_key3 y"
  by (auto simp add: key3_eq_def order_key3_def material_key3_def item_eq_def feq_def)

section \<open>Trips and leftover items of a pool\<close>


lemma fold_e_inv:
  assumes "fold_e f xs s = Inr s'" and "I s"
    and "\<And>s x s'. x \<in> set xs \<Longrightarrow> I s \<Longrightarrow> f s x = Inr s' \<Longrightarrow> I s'"
  shows "I s'"
  using assms
proof (induction xs arbitrary: s)
  case Nil
  then show ?case by simp
next
  case (Cons x xs)
  show ?case
  proof (cases "f s x")
    case (Inl e)
    then show ?thesis using Cons.prems(1) by simp
  next
    case (Inr s1)
    have a: "I s1" using Cons.prems(3)[of x s s1] Cons.prems(2) Inr by simp
    have b: "fold_e f xs s1 = Inr s'" using Cons.prems(1) Inr by simp
    show ?thesis
    proof (rule Cons.IH[OF b a])
      fix s0 x0 s0'
      assume "x0 \<in> set xs" "I s0" "f s0 x0 = Inr s0'"
      then show "I s0'" using Cons.prems(3)[of x0 s0 s0'] by simp
    qed
  qed
qed

lemma direct_trip_fields:
  "direct_trip L ord tt cap = Inr t \<Longrightarrow> volume t = cap \<and> truck_type t = tt"
  by (auto simp add: direct_trip_def bind_e_def Let_def split: sum.splits)

lemma leftover_branch:
  "fgt vol (Fin 0) \<Longrightarrow> \<not> fge vol MEDIUM_TRUCK \<Longrightarrow> leftover_small (leftover_of ord vol)"
  by (cases vol) (simp_all add: fgt_def fge_def MEDIUM_TRUCK_def leftover_small_def leftover_of_def)

lemma direct_loop_fits:
  "direct_loop L n ord vol acc = Some (Inr acc') \<Longrightarrow>
   (\<forall>t \<in> set (fst acc). trip_fits t) \<and> (\<forall>l \<in> set (snd acc). leftover_small l) \<Longrightarrow>
   (\<forall>t \<in> set (fst acc'). trip_fits t) \<and> (\<forall>l \<in> set (snd acc'). leftover_small l)"
proof (induction n arbitrary: vol acc)
  case 0
  then show ?case by (simp split: if_splits)
next
  case (Suc n)
  show ?case
  proof (cases "fgt vol (Fin 0)")
    case False
    then show ?thesis using Suc.prems by simp
  next
    case pos: True
    show ?thesis
    proof (cases "fge vol BIG_TRUCK")
      case True
      have step: "direct_loop L (Suc n) ord vol acc =
          (case direct_trip L ord Big_Truck BIG_TRUCK of Inl e \<Rightarrow> Some (Inl e)
           | Inr t \<Rightarrow> direct_loop L n ord (fsub vol BIG_TRUCK) (fst acc @ [t], snd acc))"
        using pos True by simp
      obtain t where t: "direct_trip L ord Big_Truck BIG_TRUCK = Inr t"
        and r: "direct_loop L n ord (fsub vol BIG_TRUCK) (fst acc @ [t], snd acc) = Some (Inr acc')"
        using Suc.prems(1) unfolding step by (cases "direct_trip L ord Big_Truck BIG_TRUCK") simp_all
      have "trip_fits t" using direct_trip_fields[OF t]
        by (simp add: trip_fits_def capacity_def BIG_TRUCK_def)
      then have "(\<forall>t \<in> set (fst (fst acc @ [t], snd acc)). trip_fits t) \<and>
          (\<forall>l \<in> set (snd (fst acc @ [t], snd acc)). leftover_small l)"
        using Suc.prems(2) by simp
      then show ?thesis by (rule Suc.IH[OF r])
    next
      case nb: False
      show ?thesis
      proof (cases "fge vol MEDIUM_TRUCK")
        case True
        have step: "direct_loop L (Suc n) ord vol acc =
            (case direct_trip L ord Medium_Truck MEDIUM_TRUCK of Inl e \<Rightarrow> Some (Inl e)
             | Inr t \<Rightarrow> direct_loop L n ord (fsub vol MEDIUM_TRUCK) (fst acc @ [t], snd acc))"
          using pos nb True by simp
        obtain t where t: "direct_trip L ord Medium_Truck MEDIUM_TRUCK = Inr t"
          and r: "direct_loop L n ord (fsub vol MEDIUM_TRUCK) (fst acc @ [t], snd acc) = Some (Inr acc')"
          using Suc.prems(1) unfolding step
          by (cases "direct_trip L ord Medium_Truck MEDIUM_TRUCK") simp_all
        have "trip_fits t" using direct_trip_fields[OF t]
          by (simp add: trip_fits_def capacity_def MEDIUM_TRUCK_def)
        then have "(\<forall>t \<in> set (fst (fst acc @ [t], snd acc)). trip_fits t) \<and>
            (\<forall>l \<in> set (snd (fst acc @ [t], snd acc)). leftover_small l)"
          using Suc.prems(2) by simp
        then show ?thesis by (rule Suc.IH[OF r])
      next
        case False
        then have r: "direct_loop L n ord (Fin 0) (fst acc, snd acc @ [leftover_of ord vol]) = Some (Inr acc')"
          using Suc.prems(1) pos nb by simp
        have "leftover_small (leftover_of ord vol)" using pos False by (rule leftover_branch)
        then have "(\<forall>t \<in> set (fst (fst acc, snd acc @ [leftover_of ord vol])). trip_fits t) \<and>
            (\<forall>l \<in> set (snd (fst acc, snd acc @ [leftover_of ord vol])). leftover_small l)"
          using Suc.prems(2) by simp
        then show ?thesis by (rule Suc.IH[OF r])
      qed
    qed
  qed
qed

lemma direct_pass_fits:
  "direct_pass L n ords acc = Some (Inr acc') \<Longrightarrow>
   (\<forall>t \<in> set (fst acc). trip_fits t) \<and> (\<forall>l \<in> set (snd acc). leftover_small l) \<Longrightarrow>
   (\<forall>t \<in> set (fst acc'). trip_fits t) \<and> (\<forall>l \<in> set (snd acc'). leftover_small l)"
proof (induction ords arbitrary: acc)
  case Nil
  then show ?case by simp
next
  case (Cons ord ords)
  from Cons.prems(1) obtain acc1 where a: "direct_loop L n ord (order_volume ord) acc = Some (Inr acc1)"
    and b: "direct_pass L n ords acc1 = Some (Inr acc')"
    by (auto split: option.splits sum.splits)
  show ?case by (rule Cons.IH[OF b direct_loop_fits[OF a Cons.prems(2)]])
qed

lemma best_truck_fits:
  assumes "v \<noteq> NaN" and "\<not> fgt v BIG_TRUCK"
  shows "fle v (capacity (fst (get_best_truck avoid_small v)))"
  using assms
  by (cases v)
     (auto simp add: get_best_truck_def capacity_def fgt_def SMALL_TRUCK_def MEDIUM_TRUCK_def
        BIG_TRUCK_def)

lemma sum_small:
  assumes "leftover_small a" and "leftover_small b"
  shows "fadd (l_volume a) (l_volume b) \<noteq> NaN"
  using assms by (auto simp add: leftover_small_def split: pyfloat.splits)

lemma eval_pair_truck:
  assumes "eval_pair L avoid_small a b = Inr (Some c)"
  shows "c_truck_type c = fst (get_best_truck avoid_small (fadd (l_volume a) (l_volume b)))
         \<and> \<not> fgt (fadd (l_volume a) (l_volume b)) BIG_TRUCK"
  using assms
  by (auto simp add: eval_pair_def bind_e_def Let_def split: if_splits sum.splits)

lemma find_partner_sound:
  assumes "find_partner L avoid_small ls processed i = Inr (Some (j, c))"
  shows "j < length ls \<and> eval_pair L avoid_small (ls ! i) (ls ! j) = Inr (Some c)"
proof -
  let ?I = "\<lambda>b. \<forall>j c. b = Some (j, c) \<longrightarrow>
              j < length ls \<and> eval_pair L avoid_small (ls ! i) (ls ! j) = Inr (Some c)"
  have "?I (Some (j, c))"
  proof (rule fold_e_inv[where I = ?I, OF assms[unfolded find_partner_def]])
    show "?I None" by simp
  next
    fix s x s'
    assume x: "x \<in> set [0 ..< length ls]" and s: "?I s"
      and st: "partner_step L avoid_small ls processed i s x = Inr s'"
    show "?I s'"
      using x s st
      by (auto simp add: partner_step_def split: if_splits sum.splits option.splits)
  qed
  then show ?thesis by simp
qed

lemma pair_step_fits:
  assumes "pair_step L avoid_small ls st i = Inr st'" and "i < length ls"
    and "\<forall>l \<in> set ls. leftover_small l" and "\<forall>t \<in> set (fst st). trip_fits t"
  shows "\<forall>t \<in> set (fst st'). trip_fits t"
proof (cases "i \<in> snd st")
  case True
  then show ?thesis using assms(1,4) by (simp add: pair_step_def)
next
  case False
  have li: "leftover_small (ls ! i)" using assms(2,3) by simp
  show ?thesis
  proof (cases "find_partner L avoid_small ls (snd st) i")
    case (Inl e)
    then show ?thesis using assms(1) False by (simp add: pair_step_def bind_e_def)
  next
    case (Inr b)
    show ?thesis
    proof (cases b)
      case None
      then obtain t where t: "leftover_trip L avoid_small (ls ! i) = Inr t"
        and s: "st' = (fst st @ [t], insert i (snd st))"
        using assms(1) False Inr by (auto simp add: pair_step_def bind_e_def split: sum.splits)
      have v: "volume t = l_volume (ls ! i)"
        and tt: "truck_type t = fst (get_best_truck avoid_small (l_volume (ls ! i)))"
        using t by (auto simp add: leftover_trip_def bind_e_def Let_def split: sum.splits)
      obtain x where x: "l_volume (ls ! i) = Fin x" "0 < x" "x < 7"
        using li by (auto simp add: leftover_small_def split: pyfloat.splits)
      have "fle (l_volume (ls ! i)) (capacity (fst (get_best_truck avoid_small (l_volume (ls ! i)))))"
        using x by (intro best_truck_fits) (simp_all add: fgt_def BIG_TRUCK_def)
      then have "trip_fits t" by (simp add: trip_fits_def v tt)
      then show ?thesis using assms(4) s by simp
    next
      case (Some jc)
      obtain j c where jc: "jc = (j, c)" by (cases jc)
      have fp: "find_partner L avoid_small ls (snd st) i = Inr (Some (j, c))"
        using Inr Some jc by simp
      have s: "st' = (fst st @ [shared_trip ls i j c], insert j (insert i (snd st)))"
        using assms(1) False fp by (simp add: pair_step_def bind_e_def)
      have j: "j < length ls" and ev: "eval_pair L avoid_small (ls ! i) (ls ! j) = Inr (Some c)"
        using find_partner_sound[OF fp] by simp_all
      have lj: "leftover_small (ls ! j)" using j assms(3) by simp
      let ?v = "fadd (l_volume (ls ! i)) (l_volume (ls ! j))"
      have "?v \<noteq> NaN" using li lj by (rule sum_small)
      moreover have "\<not> fgt ?v BIG_TRUCK" using eval_pair_truck[OF ev] by simp
      ultimately have "fle ?v (capacity (fst (get_best_truck avoid_small ?v)))"
        by (rule best_truck_fits)
      then have "trip_fits (shared_trip ls i j c)"
        using eval_pair_truck[OF ev] by (simp add: trip_fits_def shared_trip_def)
      then show ?thesis using assms(4) s by simp
    qed
  qed
qed

lemma pair_leftovers_fits:
  assumes "pair_leftovers L avoid_small ls trips = Inr trips'"
    and "\<forall>l \<in> set ls. leftover_small l" and "\<forall>t \<in> set trips. trip_fits t"
  shows "\<forall>t \<in> set trips'. trip_fits t"
proof -
  obtain st' where f: "fold_e (pair_step L avoid_small ls) [0 ..< length ls] (trips, {}) = Inr st'"
    and t: "trips' = fst st'"
    using assms(1) by (auto simp add: pair_leftovers_def bind_e_def split: sum.splits)
  have "\<forall>t \<in> set (fst st'). trip_fits t"
  proof (rule fold_e_inv[where I = "\<lambda>st. \<forall>t \<in> set (fst st). trip_fits t", OF f])
    show "\<forall>t \<in> set (fst (trips, {})). trip_fits t" using assms(3) by simp
  next
    fix s x s'
    assume "x \<in> set [0 ..< length ls]" and "\<forall>t \<in> set (fst s). trip_fits t"
      and "pair_step L avoid_small ls s x = Inr s'"
    then show "\<forall>t \<in> set (fst s'). trip_fits t"
      using assms(2) by (intro pair_step_fits[of L avoid_small ls s x s']) simp_all
  qed
  then show ?thesis using t by simp
qed

lemma example_run:
  "generate_trips_for_pool L avoid_small 3 (Fin 0) (\<lambda>i. 0) [unlocated_order 1 (Fin 15)] =
     Some (Inr
       [\<lparr>truck_type = Big_Truck, stops = [1], volume = Fin 12,
          duration = fadd (fadd (fadd TIME_LOADING (get_travel_time (Fin 50))) TIME_SERVICE)
                       (get_travel_time (Fin 50)),
          concrete_age_at_finish = Some (fadd (fadd TIME_LOADING (get_travel_time (Fin 50))) TIME_SERVICE),
          route_type = Direct\<rparr>,
        \<lparr>truck_type = fst (get_best_truck avoid_small (Fin 3)), stops = [1], volume = Fin 3,
          duration = fadd (fadd (fadd TIME_LOADING (get_travel_time (Fin 50))) TIME_SERVICE)
                       (get_travel_time (Fin 50)),
          concrete_age_at_finish = None, route_type = Leftover\<rparr>])"
proof -
  obtain k where k: "b64 (45 / 100) = Fin k" "1 / 4 \<le> k" using b64_45_100 by blast
  have pr: "prioritize_pool_orders (Fin 0) (\<lambda>i. 0) [unlocated_order 1 (Fin 15)] = [unlocated_order 1 (Fin 15)]"
    using k by (simp add: prioritize_pool_orders_def Let_def sort_desc_def unlocated_order_def
        example_order_def MEDIUM_TRUCK_def fge_def)
  have cd: "calculate_distance L PLANT_COORDS (coordinates (unlocated_order 1 (Fin 15))) = Inr (Fin 50)"
    by (simp add: calculate_distance_def unlocated_order_def is_nan_def)
  have dp: "direct_pass L 3 [unlocated_order 1 (Fin 15)] ([], []) =
      Some (Inr ([\<lparr>truck_type = Big_Truck, stops = [1], volume = Fin 12,
          duration = fadd (fadd (fadd TIME_LOADING (get_travel_time (Fin 50))) TIME_SERVICE)
                       (get_travel_time (Fin 50)),
          concrete_age_at_finish = Some (fadd (fadd TIME_LOADING (get_travel_time (Fin 50))) TIME_SERVICE),
          route_type = Direct\<rparr>], [leftover_of (unlocated_order 1 (Fin 15)) (Fin 3)]))"
    using cd
    by (simp add: numeral_3_eq_3 direct_trip_def bind_e_def Let_def fgt_def fge_def fsub_def
        BIG_TRUCK_def MEDIUM_TRUCK_def unlocated_order_def example_order_def)
  have cd2: "calculate_distance L PLANT_COORDS
      (l_coordinates (leftover_of (unlocated_order 1 (Fin 15)) (Fin 3))) = Inr (Fin 50)"
    by (simp add: calculate_distance_def unlocated_order_def leftover_of_def is_nan_def)
  show ?thesis
    unfolding generate_trips_for_pool_def pr Let_def dp
    using cd2
    by (simp add: sort_desc_def pair_leftovers_def pair_step_def find_partner_def partner_step_def
        leftover_trip_def bind_e_def Let_def leftover_of_def unlocated_order_def example_order_def)
qed



section \<open>Bounds on distances and times\<close>

lemma fmul_bounded:
  assumes "\<bar>a\<bar> \<le> A" and "\<bar>b\<bar> \<le> B" and "A * B \<le> 2 powr (of_int k)"
    and "- 1021 \<le> k" and "k \<le> 1023"
  shows "\<exists>c. fmul (Fin a) (Fin b) = Fin c \<and> \<bar>c\<bar> \<le> 2 powr (of_int k)"
proof -
  have "\<bar>a * b\<bar> \<le> A * B" unfolding abs_mult using assms(1,2) by (intro mult_mono) simp_all
  then have "\<bar>a * b\<bar> \<le> 2 powr (of_int k)" using assms(3) by linarith
  then show ?thesis using b64_bounded[OF _ assms(4,5), of "a * b"] by simp
qed

lemma fadd_bounded:
  assumes "\<bar>a\<bar> \<le> A" and "\<bar>b\<bar> \<le> B" and "A + B \<le> 2 powr (of_int k)"
    and "- 1021 \<le> k" and "k \<le> 1023"
  shows "\<exists>c. fadd (Fin a) (Fin b) = Fin c \<and> \<bar>c\<bar> \<le> 2 powr (of_int k)"
proof -
  have "\<bar>a + b\<bar> \<le> 2 powr (of_int k)" using assms(1,2,3) by linarith
  then show ?thesis using b64_bounded[OF _ assms(4,5), of "a + b"] by simp
qed

lemma m_atan2_range:
  assumes "m_atan2 L y x = Inr ang" and "atan2_in_range L"
  shows "ang = NaN \<or> (\<exists>r. ang = Fin r \<and> \<bar>r\<bar> \<le> 4)"
proof -
  obtain p where p: "b64 pi = Fin p" "2 \<le> p" "p \<le> 4" using b64_pi by blast
  have h: "\<exists>r. fmul (Fin q) (Fin p) = Fin r \<and> \<bar>r\<bar> \<le> 4" if "0 \<le> q" "q \<le> 1" for q
  proof -
    have "\<exists>c. fmul (Fin q) (Fin p) = Fin c \<and> \<bar>c\<bar> \<le> 2 powr (of_int 2)"
      using that p by (intro fmul_bounded[of q 1 p 4]) simp_all
    then show ?thesis by simp
  qed
  have h': "\<exists>r. fneg (fmul (Fin q) (Fin p)) = Fin r \<and> \<bar>r\<bar> \<le> 4" if "0 \<le> q" "q \<le> 1" for q
    using h[OF that] by auto
  show ?thesis
  proof (cases y)
    case yf: (Fin a)
    show ?thesis
    proof (cases x)
      case xf: (Fin b)
      show ?thesis
      proof (cases "lm_atan2 L a b")
        case fr: (Fin r)
        then have "ang = Fin r" using assms(1) yf xf by simp
        moreover have "\<bar>r\<bar> \<le> 4" using assms(2) fr unfolding atan2_in_range_def by blast
        ultimately show ?thesis by blast
      next
        case PInf
        then show ?thesis using assms(1) yf xf by simp
      next
        case NInf
        then show ?thesis using assms(1) yf xf by simp
      next
        case NaN
        then show ?thesis using assms(1) yf xf by simp
      qed
    next
      case PInf
      then show ?thesis using assms yf by auto
    next
      case NInf
      then show ?thesis using assms yf p by (auto split: if_splits)
    next
      case NaN
      then show ?thesis using assms yf by auto
    qed
  next
    case yp: PInf
    show ?thesis
    proof (cases x)
      case (Fin b)
      then show ?thesis using assms yp p h[of "1 / 2"] by auto
    next
      case PInf
      then show ?thesis using assms yp p h[of "1 / 4"] by auto
    next
      case NInf
      then show ?thesis using assms yp p h[of "3 / 4"] by auto
    next
      case NaN
      then show ?thesis using assms yp by auto
    qed
  next
    case yn: NInf
    show ?thesis
    proof (cases x)
      case (Fin b)
      then show ?thesis using assms yn p h'[of "1 / 2"] by auto
    next
      case PInf
      then show ?thesis using assms yn p h'[of "1 / 4"] by auto
    next
      case NInf
      then show ?thesis using assms yn p h'[of "3 / 4"] by auto
    next
      case NaN
      then show ?thesis using assms yn by auto
    qed
  next
    case NaN
    then show ?thesis using assms by auto
  qed
qed

lemma scaled_angle:
  assumes "ang = NaN \<or> (\<exists>r. ang = Fin r \<and> \<bar>r\<bar> \<le> 4)"
  shows "fmul (Fin 6371) (fmul (Fin 2) ang) = NaN \<or>
         (\<exists>d. fmul (Fin 6371) (fmul (Fin 2) ang) = Fin d \<and> \<bar>d\<bar> \<le> 2 powr (of_int 16))"
proof (cases "ang = NaN")
  case True
  then show ?thesis by simp
next
  case False
  then obtain r where r: "ang = Fin r" "\<bar>r\<bar> \<le> 4" using assms by blast
  obtain c where c: "fmul (Fin 2) (Fin r) = Fin c" "\<bar>c\<bar> \<le> 2 powr (of_int 3)"
    using fmul_bounded[of 2 2 r 4 3] r(2) by auto
  have c8: "\<bar>c\<bar> \<le> 8" using c(2) by simp
  obtain d where d: "fmul (Fin 6371) (Fin c) = Fin d" "\<bar>d\<bar> \<le> 2 powr (of_int 16)"
    using fmul_bounded[of 6371 6371 c 8 16] c8 by auto
  show ?thesis using r(1) c(1) d by simp
qed

lemma calculate_distance_range:
  assumes "calculate_distance L p q = Inr d" and "atan2_in_range L"
  shows "d = NaN \<or> (\<exists>x. d = Fin x \<and> \<bar>x\<bar> \<le> 2 powr (of_int 16))"
proof (cases "is_nan (latitude p) \<or> is_nan (longitude p) \<or> is_nan (latitude q) \<or> is_nan (longitude q)")
  case True
  then have "d = Fin 50" using assms(1) by (simp add: calculate_distance_def)
  then show ?thesis by simp
next
  case False
  then obtain ra rb ang where a: "m_atan2 L ra rb = Inr ang"
    and d: "d = fmul (Fin 6371) (fmul (Fin 2) ang)"
    using assms(1)
    by (simp add: calculate_distance_def bind_e_def Let_def split: sum.splits)
  show ?thesis unfolding d by (rule scaled_angle[OF m_atan2_range[OF a assms(2)]])
qed

lemma travel_time_range:
  assumes "d = NaN \<or> (\<exists>x. d = Fin x \<and> \<bar>x\<bar> \<le> 2 powr (of_int 16))"
  shows "\<exists>t. get_travel_time d = Fin t \<and> \<bar>t\<bar> \<le> 2 powr (of_int 17)"
proof (cases "d = NaN")
  case True
  have "(1::real) \<le> 2 powr (of_int 17)" by simp
  then show ?thesis using True by (simp add: get_travel_time_def is_nan_def)
next
  case False
  then obtain x where x: "d = Fin x" "\<bar>x\<bar> \<le> 2 powr (of_int 16)" using assms by blast
  obtain k where k: "b64 (11 / 10) = Fin k" "1 \<le> k" "k \<le> 2" using b64_11_10 by blast
  have "\<bar>x / 60\<bar> \<le> 2 powr (of_int 16)" using x(2) by simp
  then obtain y where y: "b64 (x / 60) = Fin y" "\<bar>y\<bar> \<le> 2 powr (of_int 16)"
    using b64_bounded[of "x / 60" 16] by auto
  have y16: "\<bar>y\<bar> \<le> 65536" using y(2) by simp
  obtain t where t: "fmul (Fin y) (Fin k) = Fin t" "\<bar>t\<bar> \<le> 2 powr (of_int 17)"
    using fmul_bounded[of y 65536 k 2 17] y16 k by auto
  show ?thesis using x(1) y(1) k(1) t
    by (simp add: get_travel_time_def is_nan_def SPEED_KMH_def)
qed

lemma age_finite:
  assumes "\<bar>t1\<bar> \<le> 2 powr (of_int 17)" and "\<bar>t2\<bar> \<le> 2 powr (of_int 17)"
  shows "\<exists>a. fadd (fadd (fadd (fadd TIME_LOADING (Fin t1)) TIME_SERVICE) (Fin t2)) TIME_SERVICE = Fin a"
proof -
  have b1: "\<bar>t1\<bar> \<le> 131072" and b2: "\<bar>t2\<bar> \<le> 131072" using assms by simp_all
  obtain a1 where a1: "fadd (Fin (1 / 4)) (Fin t1) = Fin a1" "\<bar>a1\<bar> \<le> 2 powr (of_int 18)"
    using fadd_bounded[of "1 / 4" 1 t1 131072 18] b1 by auto
  have c1: "\<bar>a1\<bar> \<le> 262144" using a1(2) by simp
  obtain a2 where a2: "fadd (Fin a1) (Fin (3 / 4)) = Fin a2" "\<bar>a2\<bar> \<le> 2 powr (of_int 19)"
    using fadd_bounded[of a1 262144 "3 / 4" 1 19] c1 by auto
  have c2: "\<bar>a2\<bar> \<le> 524288" using a2(2) by simp
  obtain a3 where a3: "fadd (Fin a2) (Fin t2) = Fin a3" "\<bar>a3\<bar> \<le> 2 powr (of_int 20)"
    using fadd_bounded[of a2 524288 t2 131072 20] c2 b2 by auto
  have c3: "\<bar>a3\<bar> \<le> 1048576" using a3(2) by simp
  obtain a4 where a4: "fadd (Fin a3) (Fin (3 / 4)) = Fin a4" "\<bar>a4\<bar> \<le> 2 powr (of_int 21)"
    using fadd_bounded[of a3 1048576 "3 / 4" 1 21] c3 by auto
  show ?thesis unfolding TIME_LOADING_def TIME_SERVICE_def a1(1) a2(1) a3(1) a4(1) by simp
qed

lemma optimize_stop_sequence_cases:
  "optimize_stop_sequence L a b = Inr s \<Longrightarrow> s = (a, b) \<or> s = (b, a)"
  by (auto simp add: optimize_stop_sequence_def bind_e_def Let_def split: sum.splits if_splits)

lemma eval_pair_age:
  assumes ev: "eval_pair L avoid_small a b = Inr (Some c)" and rng: "atan2_in_range L"
  shows "(c_stops c = (a, b) \<or> c_stops c = (b, a))
         \<and> second_stop_age L (fst (c_stops c)) (snd (c_stops c)) = Inr (c_age c)
         \<and> fle (c_age c) MAX_CONCRETE_LIFESPAN"
proof -
  from ev obtain s d1 d2 d3 where s: "optimize_stop_sequence L a b = Inr s"
    and d1: "calculate_distance L PLANT_COORDS (l_coordinates (fst s)) = Inr d1"
    and d2: "calculate_distance L (l_coordinates (fst s)) (l_coordinates (snd s)) = Inr d2"
    and d3: "calculate_distance L (l_coordinates (snd s)) PLANT_COORDS = Inr d3"
    and ng: "\<not> fgt (fadd (fadd (fadd (fadd TIME_LOADING (get_travel_time d1)) TIME_SERVICE)
                   (get_travel_time d2)) TIME_SERVICE) MAX_CONCRETE_LIFESPAN"
    and cs: "c_stops c = s"
    and ca: "c_age c = fadd (fadd (fadd (fadd TIME_LOADING (get_travel_time d1)) TIME_SERVICE)
                   (get_travel_time d2)) TIME_SERVICE"
    by (simp add: eval_pair_def bind_e_def Let_def split: if_splits sum.splits) force
  obtain t1 where t1: "get_travel_time d1 = Fin t1" "\<bar>t1\<bar> \<le> 2 powr (of_int 17)"
    using travel_time_range[OF calculate_distance_range[OF d1 rng]] by blast
  obtain t2 where t2: "get_travel_time d2 = Fin t2" "\<bar>t2\<bar> \<le> 2 powr (of_int 17)"
    using travel_time_range[OF calculate_distance_range[OF d2 rng]] by blast
  obtain x where x: "c_age c = Fin x"
    using age_finite[OF t1(2) t2(2)] unfolding ca t1(1) t2(1) by blast
  have "fle (c_age c) MAX_CONCRETE_LIFESPAN"
    using ng unfolding ca[symmetric] x by (simp add: fgt_def MAX_CONCRETE_LIFESPAN_def)
  moreover have "second_stop_age L (fst s) (snd s) = Inr (c_age c)"
    unfolding ca by (simp add: second_stop_age_def bind_e_def d1 d2)
  moreover have "s = (a, b) \<or> s = (b, a)" using s by (rule optimize_stop_sequence_cases)
  ultimately show ?thesis unfolding cs by blast
qed

section \<open>An example of pairing\<close>


lemma arctan_abs: "\<bar>arctan z\<bar> < pi / 2"
  using arctan_lbound[of z] arctan_ubound[of z] by linarith

lemma atan2_real_range: "\<bar>atan2_real y x\<bar> \<le> 4"
proof -
  have p: "pi < 4" "0 < pi" using pi_less_4 pi_gt_zero by auto
  have lb: "- (pi / 2) < arctan (y / x)" by (rule arctan_lbound)
  have ub: "arctan (y / x) < pi / 2" by (rule arctan_ubound)
  consider "0 < x" | "x < 0" "0 \<le> y" | "x < 0" "y < 0" | "x = 0" by linarith
  then show ?thesis
  proof cases
    case 1
    then have e: "atan2_real y x = arctan (y / x)" by (simp add: atan2_real_def)
    show ?thesis unfolding e using lb ub p by linarith
  next
    case 2
    then have "y / x \<le> 0" by (simp add: divide_nonneg_neg)
    then have le: "arctan (y / x) \<le> 0" by (simp only: arctan_le_zero_iff)
    have e: "atan2_real y x = arctan (y / x) + pi" using 2 by (simp add: atan2_real_def)
    show ?thesis unfolding e using lb le p by linarith
  next
    case 3
    then have "0 < y / x" by (simp add: divide_neg_neg)
    then have gt: "0 < arctan (y / x)" by (simp only: zero_less_arctan_iff)
    have e: "atan2_real y x = arctan (y / x) - pi" using 3 by (simp add: atan2_real_def)
    show ?thesis unfolding e using ub gt p by linarith
  next
    case 4
    then have "atan2_real y x = pi / 2 \<or> atan2_real y x = - pi / 2 \<or> atan2_real y x = 0"
      by (simp add: atan2_real_def)
    then show ?thesis using p by linarith
  qed
qed

lemma ideal_atan2_in_range: "atan2_in_range ideal_libm"
proof -
  have "\<bar>r\<bar> \<le> 4" if "b64 (atan2_real y x) = Fin r" for y x r
  proof -
    have "\<bar>atan2_real y x\<bar> \<le> 2 powr (of_int 2)" using atan2_real_range[of y x] by simp
    then obtain z where "b64 (atan2_real y x) = Fin z" "\<bar>z\<bar> \<le> 2 powr (of_int 2)"
      using b64_bounded[of "atan2_real y x" 2] by auto
    then show ?thesis using that by simp
  qed
  then show ?thesis by (simp add: atan2_in_range_def ideal_libm_def)
qed

lemma example_leftover_fields [simp]:
  "l_coordinates (example_leftover cid vol) = PLANT_COORDS"
  "l_volume (example_leftover cid vol) = vol"
  "l_customer_id (example_leftover cid vol) = cid"
  by (simp_all add: example_leftover_def leftover_of_def example_order_def)

lemma example_stop_sequence:
  "optimize_stop_sequence ideal_libm (example_leftover a va) (example_leftover b vb) =
     Inr (example_leftover a va, example_leftover b vb)"
  by (simp add: optimize_stop_sequence_def bind_e_def Let_def)

lemma example_eval_pair:
  "eval_pair ideal_libm False (example_leftover 1 (Fin 3)) (example_leftover 2 (Fin 2)) =
     Inr (Some \<lparr>c_score = Fin 10, c_truck_type = Medium_Truck, c_truck_cap = Fin 7,
                c_stops = (example_leftover 1 (Fin 3), example_leftover 2 (Fin 2)),
                c_dist2 = Fin 0, c_age = Fin (7 / 4), c_duration = Fin (7 / 4)\<rparr>)"
  by (simp add: eval_pair_def example_stop_sequence bind_e_def Let_def fgt_def fsub_def
      get_best_truck_def BIG_TRUCK_def MEDIUM_TRUCK_def SMALL_TRUCK_def
      TIME_LOADING_def TIME_SERVICE_def MAX_CONCRETE_LIFESPAN_def)

lemma example_pairing:
  "pair_leftovers ideal_libm False [example_leftover 1 (Fin 3), example_leftover 2 (Fin 2)] [] =
     Inr [\<lparr>truck_type = Medium_Truck, stops = [1, 2], volume = Fin 5, duration = Fin (7 / 4),
           concrete_age_at_finish = None, route_type = Shared\<rparr>]"
proof -
  have u: "[0 ..< length [example_leftover 1 (Fin 3), example_leftover 2 (Fin 2)]] = [0, Suc 0]"
    by (simp add: upt_rec)
  have fp: "find_partner ideal_libm False [example_leftover 1 (Fin 3), example_leftover 2 (Fin 2)] {} 0
      = Inr (Some (Suc 0, \<lparr>c_score = Fin 10, c_truck_type = Medium_Truck, c_truck_cap = Fin 7,
                c_stops = (example_leftover 1 (Fin 3), example_leftover 2 (Fin 2)),
                c_dist2 = Fin 0, c_age = Fin (7 / 4), c_duration = Fin (7 / 4)\<rparr>))"
    unfolding find_partner_def u
    by (simp add: partner_step_def example_eval_pair best_metric_def)
  show ?thesis
    unfolding pair_leftovers_def u
    by (simp add: pair_step_def fp bind_e_def shared_trip_def)
qed

lemma leftover_trip_route: "leftover_trip L avoid_small x = Inr t \<Longrightarrow> route_type t = Leftover"
  by (auto simp add: leftover_trip_def bind_e_def Let_def split: sum.splits)



section \<open>The scheduler\<close>


























section \<open>The age of the concrete in shared trips\<close>

text \<open>
  Claim C1: for every list of leftover items, every trip that the pairing emits with
  route type Shared serves two of the items, and the age of the concrete at the second
  stop (loading, travel from the plant to the first stop, service, travel to the second
  stop, service) is at most 6.0 hours. The C library is any whose \<open>atan2\<close> returns
  angles, so that distances and times are finite.
\<close>

theorem shared_trip_age:
  assumes run: "pair_leftovers L avoid_small ls trips0 = Inr trips" and rng: "atan2_in_range L"
    and t0: "\<forall>t \<in> set trips0. route_type t \<noteq> Shared"
  shows "\<forall>t \<in> set trips. route_type t = Shared \<longrightarrow>
           (\<exists>s1 \<in> set ls. \<exists>s2 \<in> set ls. \<exists>age.
              stops t = [l_customer_id s1, l_customer_id s2] \<and>
              second_stop_age L s1 s2 = Inr age \<and> fle age MAX_CONCRETE_LIFESPAN)"
proof -
  let ?G = "\<lambda>t. route_type t = Shared \<longrightarrow>
           (\<exists>s1 \<in> set ls. \<exists>s2 \<in> set ls. \<exists>age.
              stops t = [l_customer_id s1, l_customer_id s2] \<and>
              second_stop_age L s1 s2 = Inr age \<and> fle age MAX_CONCRETE_LIFESPAN)"
  obtain st' where f: "fold_e (pair_step L avoid_small ls) [0 ..< length ls] (trips0, {}) = Inr st'"
    and t: "trips = fst st'"
    using run by (auto simp add: pair_leftovers_def bind_e_def split: sum.splits)
  have step: "\<forall>t \<in> set (fst s'). ?G t"
    if i: "i < length ls" and inv: "\<forall>t \<in> set (fst s). ?G t"
      and ps: "pair_step L avoid_small ls s i = Inr s'" for s i s'
  proof (cases "i \<in> snd s")
    case True
    then have "s' = s" using ps by (simp add: pair_step_def)
    then show ?thesis using inv by simp
  next
    case False
    show ?thesis
    proof (cases "find_partner L avoid_small ls (snd s) i")
      case (Inl e)
      then show ?thesis using ps False by (simp add: pair_step_def bind_e_def)
    next
      case (Inr b)
      show ?thesis
      proof (cases b)
        case None
        then obtain tr where tr: "leftover_trip L avoid_small (ls ! i) = Inr tr"
          and s: "s' = (fst s @ [tr], insert i (snd s))"
          using ps False Inr by (auto simp add: pair_step_def bind_e_def split: sum.splits)
        have "?G tr" using leftover_trip_route[OF tr] by simp
        then show ?thesis using inv unfolding s by simp
      next
        case (Some jc)
        obtain j c where jc: "jc = (j, c)" by (cases jc)
        have fp: "find_partner L avoid_small ls (snd s) i = Inr (Some (j, c))"
          using Inr Some jc by simp
        have s: "s' = (fst s @ [shared_trip ls i j c], insert j (insert i (snd s)))"
          using ps False fp by (simp add: pair_step_def bind_e_def)
        have j: "j < length ls" and ev: "eval_pair L avoid_small (ls ! i) (ls ! j) = Inr (Some c)"
          using find_partner_sound[OF fp] by simp_all
        have a: "c_stops c = (ls ! i, ls ! j) \<or> c_stops c = (ls ! j, ls ! i)"
          and b: "second_stop_age L (fst (c_stops c)) (snd (c_stops c)) = Inr (c_age c)"
          and c: "fle (c_age c) MAX_CONCRETE_LIFESPAN"
          using eval_pair_age[OF ev rng] by simp_all
        have m: "fst (c_stops c) \<in> set ls" "snd (c_stops c) \<in> set ls"
          using a i j by auto
        have st: "stops (shared_trip ls i j c) =
            [l_customer_id (fst (c_stops c)), l_customer_id (snd (c_stops c))]"
          by (simp add: shared_trip_def)
        have "?G (shared_trip ls i j c)" using m st b c by blast
        then show ?thesis using inv unfolding s by simp
      qed
    qed
  qed
  have "\<forall>t \<in> set (fst st'). ?G t"
  proof (rule fold_e_inv[where I = "\<lambda>st. \<forall>t \<in> set (fst st). ?G t", OF f])
    show "\<forall>t \<in> set (fst (trips0, {})). ?G t" using t0 by simp
  next
    fix s x s'
    assume x: "x \<in> set [0 ..< length ls]" and inv: "\<forall>t \<in> set (fst s). ?G t"
      and ps: "pair_step L avoid_small ls s x = Inr s'"
    have "x < length ls" using x by simp
    then show "\<forall>t \<in> set (fst s'). ?G t" using inv ps by (rule step)
  qed
  then show ?thesis unfolding t .
qed

theorem shared_trip_age_witness:
  "pair_leftovers ideal_libm False [example_leftover 1 (Fin 3), example_leftover 2 (Fin 2)] [] =
     Inr [\<lparr>truck_type = Medium_Truck, stops = [1, 2], volume = Fin 5, duration = Fin (7 / 4),
           concrete_age_at_finish = None, route_type = Shared\<rparr>]
   \<and> second_stop_age ideal_libm (example_leftover 1 (Fin 3)) (example_leftover 2 (Fin 2))
       = Inr (Fin (7 / 4))
   \<and> fle (Fin (7 / 4)) MAX_CONCRETE_LIFESPAN"
proof -
  have h: "\<forall>t \<in> set ([] :: trip list). route_type t \<noteq> Shared" by simp
  have a: "second_stop_age ideal_libm (example_leftover 1 (Fin 3)) (example_leftover 2 (Fin 2))
       = Inr (Fin (7 / 4))"
    by (simp add: second_stop_age_def bind_e_def TIME_LOADING_def TIME_SERVICE_def)
  show ?thesis
    using shared_trip_age [OF example_pairing ideal_atan2_in_range h] example_pairing a
    by (simp add: MAX_CONCRETE_LIFESPAN_def)
qed

section \<open>First-fit scheduling\<close>



section \<open>Every trip fits its truck\<close>

text \<open>
  Claim C6: every trip that \<open>generate_trips_for_pool\<close> returns, of any route type, has a
  volume of at most the capacity of its truck type (3.0, 7.0, 12.0), with any C library,
  in the default variant (\<open>avoid_small\<close> false) and in the variant that avoids small
  trucks (\<open>avoid_small\<close> true).
\<close>

theorem volume_within_capacity:
  assumes "generate_trips_for_pool L avoid_small fuel r rb pool = Some (Inr trips)"
  shows "\<forall>t \<in> set trips. fle (volume t) (capacity (truck_type t))"
proof -
  obtain ts ls where d: "direct_pass L fuel (prioritize_pool_orders r rb pool) ([], []) = Some (Inr (ts, ls))"
    and p: "pair_leftovers L avoid_small (sort_desc l_volume ls) ts = Inr trips"
    using assms
    by (auto simp add: generate_trips_for_pool_def Let_def split: option.splits sum.splits)
  have "(\<forall>t \<in> set ts. trip_fits t) \<and> (\<forall>l \<in> set ls. leftover_small l)"
    using direct_pass_fits[OF d] by simp
  then have "\<forall>t \<in> set trips. trip_fits t"
    using pair_leftovers_fits[OF p] by simp
  then show ?thesis by (simp add: trip_fits_def)
qed

theorem volume_within_capacity_witness:
  "\<forall>L. map (\<lambda>t. (truck_type t, volume t, fle (volume t) (capacity (truck_type t))))
     (case generate_trips_for_pool L False 3 (Fin 0) (\<lambda>i. 0) [unlocated_order 1 (Fin 15)] of
        Some (Inr ts) \<Rightarrow> ts | _ \<Rightarrow> [])
     = [(Big_Truck, Fin 12, True), (Small_Truck, Fin 3, True)]"
proof
  fix L
  show "map (\<lambda>t. (truck_type t, volume t, fle (volume t) (capacity (truck_type t))))
     (case generate_trips_for_pool L False 3 (Fin 0) (\<lambda>i. 0) [unlocated_order 1 (Fin 15)] of
        Some (Inr ts) \<Rightarrow> ts | _ \<Rightarrow> [])
     = [(Big_Truck, Fin 12, True), (Small_Truck, Fin 3, True)]"
    using volume_within_capacity [OF example_run [of L False]]
    by (simp add: example_run get_best_truck_def SMALL_TRUCK_def)
qed

section \<open>The pools are a stable partition\<close>

text \<open>
  Claim C7, as stated, covers every list of orders. Two orders that agree in every
  field of the key, with a \<open>Dmax\<close> of NaN held in two float objects, get a pool each:
  the lookup of the second key finds no equal key. So the pool is not determined by the
  key, and the pools are no partition by it.
\<close>

theorem nan_key_counterexample:
  "material_key ((example_order 1 (Fin 8))\<lparr>Dmax := NaN, Dmax_id := 1\<rparr>)
     = material_key ((example_order 2 (Fin 3))\<lparr>Dmax := NaN, Dmax_id := 2\<rparr>)
   \<and> map (\<lambda>p. map customer_id (snd p))
       (create_pools [(example_order 1 (Fin 8))\<lparr>Dmax := NaN, Dmax_id := 1\<rparr>,
                      (example_order 2 (Fin 3))\<lparr>Dmax := NaN, Dmax_id := 2\<rparr>]) = [[1], [2]]
   \<and> \<not> stable_partition material_key
       [(example_order 1 (Fin 8))\<lparr>Dmax := NaN, Dmax_id := 1\<rparr>,
        (example_order 2 (Fin 3))\<lparr>Dmax := NaN, Dmax_id := 2\<rparr>]
       (map snd (create_pools [(example_order 1 (Fin 8))\<lparr>Dmax := NaN, Dmax_id := 1\<rparr>,
                               (example_order 2 (Fin 3))\<lparr>Dmax := NaN, Dmax_id := 2\<rparr>]))"
  by (simp add: create_pools_def create_pools_by_def example_order_def order_key_def key_eq_def
      item_eq_def feq_def material_key_def stable_partition_def)

text \<open>
  Claim C7, amended: for every list of orders none of which has a NaN \<open>Dmax\<close>,
  \<open>create_pools\<close>, in both variants of the key, produces a stable partition by the
  material-compatibility key: every order lies in exactly one pool, a pool holds exactly
  the orders of one key, and it lists them in input order.
\<close>

theorem create_pools_stable_partition:
  assumes "\<forall>ord \<in> set ords. Dmax ord \<noteq> NaN"
  shows "stable_partition material_key ords (map snd (create_pools ords)) \<and>
         stable_partition material_key3 ords (map snd (create_pools_test ords))"
proof
  have "pools_inv order_key material_key ords (create_pools_by order_key key_eq ords)"
    using assms by (intro pools_inv_create_pools_by key_eq_material) blast
  then show "stable_partition material_key ords (map snd (create_pools ords))"
    unfolding create_pools_def by (rule pools_inv_stable_partition)
next
  have "pools_inv order_key3 material_key3 ords (create_pools_by order_key3 key3_eq ords)"
    using assms by (intro pools_inv_create_pools_by key3_eq_material) blast
  then show "stable_partition material_key3 ords (map snd (create_pools_test ords))"
    unfolding create_pools_test_def by (rule pools_inv_stable_partition)
qed

theorem create_pools_stable_partition_witness:
  "map (map customer_id)
     (map snd (create_pools [example_order 1 (Fin 8),
        (example_order 2 (Fin 3))\<lparr>strength := ''C30''\<rparr>, example_order 3 (Fin 12)]))
     = [[1, 3], [2]]
   \<and> map (map customer_id)
     (map snd (create_pools_test [example_order 1 (Fin 8),
        (example_order 2 (Fin 3))\<lparr>strength := ''C30''\<rparr>, example_order 3 (Fin 12)]))
     = [[1, 3], [2]]
   \<and> stable_partition material_key
       [example_order 1 (Fin 8), (example_order 2 (Fin 3))\<lparr>strength := ''C30''\<rparr>,
        example_order 3 (Fin 12)]
       (map snd (create_pools [example_order 1 (Fin 8),
          (example_order 2 (Fin 3))\<lparr>strength := ''C30''\<rparr>, example_order 3 (Fin 12)]))"
proof -
  have h: "\<forall>ord \<in> set [example_order 1 (Fin 8), (example_order 2 (Fin 3))\<lparr>strength := ''C30''\<rparr>,
        example_order 3 (Fin 12)]. Dmax ord \<noteq> NaN"
    by (simp add: example_order_def)
  have e: "map (map customer_id)
     (map snd (create_pools [example_order 1 (Fin 8),
        (example_order 2 (Fin 3))\<lparr>strength := ''C30''\<rparr>, example_order 3 (Fin 12)]))
     = [[1, 3], [2]]"
     "map (map customer_id)
     (map snd (create_pools_test [example_order 1 (Fin 8),
        (example_order 2 (Fin 3))\<lparr>strength := ''C30''\<rparr>, example_order 3 (Fin 12)]))
     = [[1, 3], [2]]"
    by (simp_all add: create_pools_def create_pools_test_def create_pools_by_def
        example_order_def order_key_def key_eq_def order_key3_def key3_eq_def item_eq_def feq_def)
  show ?thesis using create_pools_stable_partition [OF h] e by blast
qed

section \<open>Priority mode\<close>

text \<open>
  Claim C8: when the drawn value is below 0.45, \<open>prioritize_pool_orders\<close> returns a list
  \<open>large @ small\<close> where \<open>small\<close> is the orders of volume \<open>< 7.0\<close> in their input order
  and \<open>large\<close> is a rearrangement of the orders of volume \<open>\<ge> 7.0\<close>, in descending order of
  volume, orders of equal volume keeping their input order. So every large order comes
  before every small one.
\<close>

theorem priority_mode_order:
  assumes "flt r (b64 (45 / 100))"
  shows "\<exists>large. prioritize_pool_orders r rb pool =
             large @ filter (\<lambda>ord. flt (order_volume ord) MEDIUM_TRUCK) pool
           \<and> mset large = mset (filter (\<lambda>ord. fge (order_volume ord) MEDIUM_TRUCK) pool)
           \<and> sorted_wrt (\<lambda>a b. fge (order_volume a) (order_volume b)) large
           \<and> (\<forall>v. filter (\<lambda>ord. order_volume ord = v) large =
                    filter (\<lambda>ord. order_volume ord = v)
                      (filter (\<lambda>ord. fge (order_volume ord) MEDIUM_TRUCK) pool))"
proof -
  let ?L = "filter (\<lambda>ord. fge (order_volume ord) MEDIUM_TRUCK) pool"
  have nn: "\<forall>y\<in>set ?L. order_volume y \<noteq> NaN"
    by (auto simp add: fge_def dest: fle_not_nan)
  have "prioritize_pool_orders r rb pool =
          sort_desc order_volume ?L @ filter (\<lambda>ord. flt (order_volume ord) MEDIUM_TRUCK) pool"
    using assms by (simp add: prioritize_pool_orders_def Let_def)
  moreover have "mset (sort_desc order_volume ?L) = mset ?L" by simp
  moreover have "sorted_wrt (\<lambda>a b. fge (order_volume a) (order_volume b)) (sort_desc order_volume ?L)"
    using nn by (rule sorted_sort_desc)
  moreover have "\<forall>v. filter (\<lambda>ord. order_volume ord = v) (sort_desc order_volume ?L) =
                    filter (\<lambda>ord. order_volume ord = v) ?L"
    by (simp add: filter_sort_desc)
  ultimately show ?thesis by blast
qed

theorem priority_mode_order_witness:
  "flt (Fin 0) (b64 (45 / 100)) \<and>
   map customer_id (prioritize_pool_orders (Fin 0) (\<lambda>i. 0)
     [example_order 1 (Fin 8), example_order 2 (Fin 3), example_order 3 (Fin 12),
      example_order 4 (Fin 8)]) = [3, 1, 4, 2]"
proof -
  obtain k where k: "b64 (45 / 100) = Fin k" "1 / 4 \<le> k" using b64_45_100 by blast
  have h: "flt (Fin 0) (b64 (45 / 100))" using k by simp
  show ?thesis
    using h priority_mode_order [OF h, of "\<lambda>i. 0"
      "[example_order 1 (Fin 8), example_order 2 (Fin 3), example_order 3 (Fin 12),
        example_order 4 (Fin 8)]"]
    by (simp add: prioritize_pool_orders_def Let_def sort_desc_def example_order_def
        MEDIUM_TRUCK_def fge_def)
qed

section \<open>Distance and travel time on invalid input\<close>

text \<open>
  Claim C9, as stated, speaks of every non-finite input. The guard of both functions is
  \<open>math.isnan\<close>, which an infinity passes. An infinite latitude reaches \<open>math.sin\<close>, which
  raises ValueError, and the travel time of an infinite distance is infinite, not 1.0.
\<close>

theorem infinite_input_counterexample:
  "\<forall>L. calculate_distance L \<lparr>latitude = PInf, longitude = Fin 0\<rparr>
         \<lparr>latitude = Fin 0, longitude = Fin 0\<rparr> = Inl ValueError
       \<and> get_travel_time PInf = PInf"
proof -
  obtain k where k: "0 < k" and r: "\<And>x. m_radians x = fmul x (Fin k)"
    using m_radians_fin by blast
  obtain c where c: "b64 (11 / 10) = Fin c" "1 \<le> c" using b64_11_10 by blast
  have "calculate_distance L \<lparr>latitude = PInf, longitude = Fin 0\<rparr>
          \<lparr>latitude = Fin 0, longitude = Fin 0\<rparr> = Inl ValueError" for L
    using k by (simp add: calculate_distance_def is_nan_def fsub_def bind_e_def Let_def r
        del: m_radians.simps)
  moreover have "get_travel_time PInf = PInf"
    using c by (simp add: get_travel_time_def is_nan_def)
  ultimately show ?thesis by simp
qed

text \<open>
  Claim C9, amended to NaN: \<open>calculate_distance\<close> returns 50.0 without raising whenever a
  latitude or longitude of either point is NaN, whatever the C library;
  \<open>get_travel_time\<close> (which has no raising path) returns 1.0 on NaN and
  \<open>(dist_km / 60.0) * 1.1\<close> on every other float.
\<close>

theorem calculate_distance_nan_only:
  "(is_nan (latitude p) \<or> is_nan (longitude p) \<or> is_nan (latitude q) \<or> is_nan (longitude q)
      \<longrightarrow> calculate_distance L p q = Inr (Fin 50))
   \<and> (is_nan d \<longrightarrow> get_travel_time d = Fin 1)
   \<and> (\<not> is_nan d \<longrightarrow> get_travel_time d = fmul (fdiv d SPEED_KMH) (b64 (11 / 10)))"
  by (simp add: calculate_distance_def get_travel_time_def)

theorem calculate_distance_nan_only_witness:
  "(\<forall>L. calculate_distance L \<lparr>latitude = NaN, longitude = Fin 19\<rparr>
          \<lparr>latitude = Fin 47, longitude = Fin 19\<rparr> = Inr (Fin 50))
   \<and> get_travel_time NaN = Fin 1
   \<and> get_travel_time (Fin 0) = Fin 0"
  using calculate_distance_nan_only [of "\<lparr>latitude = NaN, longitude = Fin 19\<rparr>"
      "\<lparr>latitude = Fin 47, longitude = Fin 19\<rparr>" _ NaN]
    calculate_distance_nan_only [of "\<lparr>latitude = NaN, longitude = Fin 19\<rparr>"
      "\<lparr>latitude = Fin 47, longitude = Fin 19\<rparr>" _ "Fin 0"]
    b64_11_10
  by (auto simp add: is_nan_def SPEED_KMH_def)

section \<open>Termination of the packing loop\<close>




end
